theory Spec2Isabelle
  imports Main "HOL-Library.Sublist"
begin

section \<open>Flickr Image Downloader: the pagination loop and the download pass\<close>

text \<open>
  A shallow embedding of \<^verbatim>\<open>src/nodes/flickr_image_downloader.py\<close>: the method
  \<^verbatim>\<open>FlickrImageDownloader.execute\<close> (the \<^verbatim>\<open>while\<close> loop that pages through
  \<^verbatim>\<open>flickr.photos.search\<close>, the \<^verbatim>\<open>for\<close> loop that validates and de-duplicates the
  records of one page, the list comprehension that downloads every URL) and the method
  \<^verbatim>\<open>__open_image_from_url\<close>.

  The network and the image library are parameters of the model: the search endpoint is a
  function from the query parameters of a request to its response (the page number is
  different in every request of one run, so a function describes any sequence of
  responses), the image host is a function from a URL to its response, and the two
  operations of the image library return an error message or a value. A call of
  \<^verbatim>\<open>requests.get\<close> is taken to return a response; the credential lookup, the logging
  and the progress report of the host have no part in the model. Exceptions are
  values of type \<open>error\<close>; the \<^verbatim>\<open>while\<close> loop, which has no bound on the number of
  pages, is a partial function in the option monad, \<open>None\<close> meaning that it never returns.
\<close>

subsection \<open>Decoded JSON and the Python operations the node applies to it\<close>

text \<open>
  What \<^verbatim>\<open>response.json()\<close> returns: \<^verbatim>\<open>None\<close>, a \<^verbatim>\<open>bool\<close>, an \<^verbatim>\<open>int\<close>, a
  \<^verbatim>\<open>str\<close>, a \<^verbatim>\<open>list\<close> or a \<^verbatim>\<open>dict\<close> with string keys, kept in insertion order
  as a list of entries (the keys of a decoded dict are distinct; should a key be repeated
  in the list, its first entry is the one that counts).
  Numbers with a fraction or an exponent (Python floats) are left out of the model.
\<close>

datatype json =
    JNull
  | JBool bool
  | JInt int
  | JStr string
  | JArr "json list"
  | JObj "(string \<times> json) list"

text \<open>
  The exceptions of the run. \<open>RuntimeError\<close> and \<open>ValueError\<close> carry the message the
  source builds. \<open>TypeError\<close> and \<open>KeyError\<close> are what Python raises when a membership
  test, a subscript or an iteration meets a value of the wrong kind, \<open>JSONDecodeError\<close>
  is raised by \<^verbatim>\<open>response.json()\<close> on a body that is not JSON, and \<open>ImageError\<close> stands
  for whatever the image library raises.
\<close>

datatype error =
    RuntimeError string
  | ValueError string
  | TypeError
  | KeyError string
  | JSONDecodeError
  | ImageError string

text \<open>\<^verbatim>\<open>key in x\<close> for a string key: key lookup in a dict, element equality in a list,
  substring test in a string, and a \<^verbatim>\<open>TypeError\<close> on a value that is not a container.\<close>

fun py_contains :: "string \<Rightarrow> json \<Rightarrow> error + bool" where
  "py_contains k (JObj kvs) = Inr (k \<in> set (map fst kvs))"
| "py_contains k (JArr xs) = Inr (JStr k \<in> set xs)"
| "py_contains k (JStr s) = Inr (sublist k s)"
| "py_contains k JNull = Inl TypeError"
| "py_contains k (JBool b) = Inl TypeError"
| "py_contains k (JInt i) = Inl TypeError"

text \<open>\<^verbatim>\<open>x[key]\<close> for a string key: only a dict can be subscripted by a string.\<close>

fun py_getitem :: "json \<Rightarrow> string \<Rightarrow> error + json" where
  "py_getitem (JObj kvs) k = (case map_of kvs k of None \<Rightarrow> Inl (KeyError k) | Some v \<Rightarrow> Inr v)"
| "py_getitem (JArr xs) k = Inl TypeError"
| "py_getitem (JStr s) k = Inl TypeError"
| "py_getitem JNull k = Inl TypeError"
| "py_getitem (JBool b) k = Inl TypeError"
| "py_getitem (JInt i) k = Inl TypeError"

text \<open>\<^verbatim>\<open>bool(x)\<close>, the truth value used by \<^verbatim>\<open>not x\<close>.\<close>

fun py_truthy :: "json \<Rightarrow> bool" where
  "py_truthy JNull = False"
| "py_truthy (JBool b) = b"
| "py_truthy (JInt i) = (i \<noteq> 0)"
| "py_truthy (JStr s) = (s \<noteq> [])"
| "py_truthy (JArr xs) = (xs \<noteq> [])"
| "py_truthy (JObj kvs) = (kvs \<noteq> [])"

text \<open>\<^verbatim>\<open>x == 0\<close>: true of the integer 0 and of \<^verbatim>\<open>False\<close>, false of everything else.\<close>

fun py_eq_zero :: "json \<Rightarrow> bool" where
  "py_eq_zero (JInt i) = (i = 0)"
| "py_eq_zero (JBool b) = (\<not> b)"
| "py_eq_zero JNull = False"
| "py_eq_zero (JStr s) = False"
| "py_eq_zero (JArr xs) = False"
| "py_eq_zero (JObj kvs) = False"

text \<open>\<^verbatim>\<open>for photo in x\<close>: the elements of a list, the keys of a dict, the characters
  of a string; other values are not iterable.\<close>

fun py_iter :: "json \<Rightarrow> error + json list" where
  "py_iter (JArr xs) = Inr xs"
| "py_iter (JObj kvs) = Inr (map JStr (rev (remdups (rev (map fst kvs)))))"
| "py_iter (JStr s) = Inr (map (\<lambda>c. JStr [c]) s)"
| "py_iter JNull = Inl TypeError"
| "py_iter (JBool b) = Inl TypeError"
| "py_iter (JInt i) = Inl TypeError"

text \<open>\<^verbatim>\<open>str(x)\<close> as an f-string applies it: a string is itself, an integer is its
  decimal numeral, \<^verbatim>\<open>None\<close> and the booleans are their names. The text of a list or a
  dict is Python's \<^verbatim>\<open>repr\<close>, taken as the parameter \<open>repr\<close>.\<close>

fun str_nat :: "nat \<Rightarrow> string" where
  "str_nat n =
     (if n < 10 then [''0123456789'' ! n]
      else str_nat (n div 10) @ [''0123456789'' ! (n mod 10)])"

declare str_nat.simps [simp del]

definition str_int :: "int \<Rightarrow> string" where
  "str_int i = (if i < 0 then ''-'' @ str_nat (nat (- i)) else str_nat (nat i))"

fun py_str :: "(json \<Rightarrow> string) \<Rightarrow> json \<Rightarrow> string" where
  "py_str repr (JStr s) = s"
| "py_str repr (JInt i) = str_int i"
| "py_str repr (JBool b) = (if b then ''True'' else ''False'')"
| "py_str repr JNull = ''None''"
| "py_str repr (JArr xs) = repr (JArr xs)"
| "py_str repr (JObj kvs) = repr (JObj kvs)"

subsection \<open>Configuration, requests and responses\<close>

text \<open>The node's parameters as \<^verbatim>\<open>execute\<close> reads them from \<^verbatim>\<open>self\<close>: the API key
  (the password of the selected credentials), the search term and the number of images,
  an \<^verbatim>\<open>IntParameter\<close> declared with \<^verbatim>\<open>min_value=1\<close> and \<^verbatim>\<open>max_value=20000\<close>.\<close>

record node_config =
  api_key :: string
  search_term :: string
  num_images :: int

definition valid_config :: "node_config \<Rightarrow> bool" where
  "valid_config cfg \<longleftrightarrow> 1 \<le> num_images cfg \<and> num_images cfg \<le> 20000"

text \<open>The dict \<^verbatim>\<open>params\<close> of a search request.\<close>

record search_params =
  p_method :: string
  p_api_key :: string
  p_text :: string
  p_per_page :: int
  p_page :: int
  p_format :: string
  p_nojsoncallback :: int

text \<open>What the node reads of a \<^verbatim>\<open>requests.Response\<close>: \<^verbatim>\<open>status_code\<close>, \<^verbatim>\<open>text\<close>,
  the result of \<^verbatim>\<open>json()\<close> (\<open>None\<close> when the body does not decode) and \<^verbatim>\<open>content\<close>.\<close>

record response =
  status_code :: int
  body_text :: string
  body_json :: "json option"
  content :: "nat list"

type_synonym search_api = "search_params \<Rightarrow> response"

text \<open>The variables of the \<^verbatim>\<open>while\<close> loop.\<close>

record loop_state =
  urls :: "string list"
  page :: int

definition init_state :: loop_state where
  "init_state = \<lparr>urls = [], page = 1\<rparr>"

definition max_per_page :: int where
  "max_per_page = 500"

subsection \<open>One record: validation and URL\<close>

text \<open>One pair of tests of the validation, \<^verbatim>\<open>k not in photo or bad(photo[k])\<close>, and
  Python's short-circuit \<^verbatim>\<open>or\<close> between two such pairs.\<close>

definition field_bad :: "(json \<Rightarrow> bool) \<Rightarrow> string \<Rightarrow> json \<Rightarrow> error + bool" where
  "field_bad bad k photo =
     (case py_contains k photo of
        Inl e \<Rightarrow> Inl e
      | Inr present \<Rightarrow>
          if \<not> present then Inr True
          else (case py_getitem photo k of Inl e \<Rightarrow> Inl e | Inr v \<Rightarrow> Inr (bad v)))"

definition or_else :: "error + bool \<Rightarrow> error + bool \<Rightarrow> error + bool" where
  "or_else a b = (case a of Inl e \<Rightarrow> Inl e | Inr t \<Rightarrow> if t then Inr True else b)"

text \<open>The condition of the \<^verbatim>\<open>if\<close> that skips a record (lines 116 to 125).\<close>

definition photo_invalid :: "json \<Rightarrow> error + bool" where
  "photo_invalid photo =
     or_else (field_bad py_eq_zero ''farm'' photo)
    (or_else (field_bad (\<lambda>v. \<not> py_truthy v) ''server'' photo)
    (or_else (field_bad (\<lambda>v. \<not> py_truthy v) ''id'' photo)
             (field_bad (\<lambda>v. \<not> py_truthy v) ''secret'' photo)))"

text \<open>The f-string of line 129.\<close>

definition photo_url :: "(json \<Rightarrow> string) \<Rightarrow> json \<Rightarrow> error + string" where
  "photo_url repr photo =
     (case py_getitem photo ''farm'' of Inl e \<Rightarrow> Inl e | Inr farm \<Rightarrow>
     (case py_getitem photo ''server'' of Inl e \<Rightarrow> Inl e | Inr server \<Rightarrow>
     (case py_getitem photo ''id'' of Inl e \<Rightarrow> Inl e | Inr ident \<Rightarrow>
     (case py_getitem photo ''secret'' of Inl e \<Rightarrow> Inl e | Inr secret \<Rightarrow>
        Inr (''https://farm'' @ py_str repr farm @ ''.staticflickr.com/'' @ py_str repr server
             @ ''/'' @ py_str repr ident @ ''_'' @ py_str repr secret @ ''.jpg'')))))"

subsection \<open>The loop over the records of one page\<close>

text \<open>Lines 114 to 136: an invalid record is skipped, a URL that is not yet in
  \<^verbatim>\<open>urls\<close> is appended (lines 132 and 133, \<open>append_new\<close>), and the loop is left
  as soon as \<^verbatim>\<open>urls\<close> has \<^verbatim>\<open>num_requested_images\<close> elements.\<close>

definition append_new :: "string \<Rightarrow> string list \<Rightarrow> string list" where
  "append_new u us = (if u \<notin> set us then us @ [u] else us)"

fun photo_loop :: "(json \<Rightarrow> string) \<Rightarrow> int \<Rightarrow> json list \<Rightarrow> string list \<Rightarrow> error + string list" where
  "photo_loop repr n [] us = Inr us"
| "photo_loop repr n (photo # rest) us =
     (case photo_invalid photo of
        Inl e \<Rightarrow> Inl e
      | Inr skip \<Rightarrow>
          if skip then photo_loop repr n rest us
          else (case photo_url repr photo of
                  Inl e \<Rightarrow> Inl e
                | Inr u \<Rightarrow>
                    let us' = append_new u us
                    in if int (length us') \<ge> n then Inr us' else photo_loop repr n rest us'))"

subsection \<open>One iteration of the pagination loop\<close>

definition search_request :: "node_config \<Rightarrow> loop_state \<Rightarrow> search_params" where
  "search_request cfg s =
     (let num_remaining_images = num_images cfg - int (length (urls s));
          per_page = min num_remaining_images max_per_page
      in \<lparr>p_method = ''flickr.photos.search'', p_api_key = api_key cfg,
          p_text = search_term cfg, p_per_page = per_page, p_page = page s,
          p_format = ''json'', p_nojsoncallback = 1\<rparr>)"

text \<open>The condition of the \<^verbatim>\<open>if\<close> of line 105,
  \<^verbatim>\<open>"photos" not in data or "photo" not in data["photos"]\<close>.\<close>

definition photos_missing :: "json \<Rightarrow> error + bool" where
  "photos_missing data =
     or_else (map_sum id Not (py_contains ''photos'' data))
       (case py_getitem data ''photos'' of
          Inl e \<Rightarrow> Inl e
        | Inr photos \<Rightarrow> map_sum id Not (py_contains ''photo'' photos))"

text \<open>Lines 96 to 108: from the response to \<^verbatim>\<open>photo_list\<close>.\<close>

definition fetch_photo_list :: "response \<Rightarrow> error + json" where
  "fetch_photo_list r =
     (if status_code r \<noteq> 200
      then Inl (RuntimeError (''Failed to fetch data from Flickr API: '' @ body_text r))
      else (case body_json r of
              None \<Rightarrow> Inl JSONDecodeError
            | Some data \<Rightarrow>
               (case photos_missing data of
                  Inl e \<Rightarrow> Inl e
                | Inr missing \<Rightarrow>
                    if missing then Inl (ValueError ''Unexpected API response format.'')
                    else (case py_getitem data ''photos'' of
                            Inl e \<Rightarrow> Inl e
                          | Inr photos \<Rightarrow> py_getitem photos ''photo''))))"

text \<open>How an iteration of the \<^verbatim>\<open>while\<close> body ends: with an exception, with the
  \<^verbatim>\<open>break\<close> of line 112, or at line 138 with the next page.\<close>

datatype step = Raise error | Break loop_state | Next loop_state

definition loop_body :: "(json \<Rightarrow> string) \<Rightarrow> node_config \<Rightarrow> search_api \<Rightarrow> loop_state \<Rightarrow> step" where
  "loop_body repr cfg remote s =
     (case fetch_photo_list (remote (search_request cfg s)) of
        Inl e \<Rightarrow> Raise e
      | Inr photo_list \<Rightarrow>
          if \<not> py_truthy photo_list then Break s
          else (case py_iter photo_list of
                  Inl e \<Rightarrow> Raise e
                | Inr photos \<Rightarrow>
                   (case photo_loop repr (num_images cfg) photos (urls s) of
                      Inl e \<Rightarrow> Raise e
                    | Inr us \<Rightarrow> Next \<lparr>urls = us, page = page s + 1\<rparr>)))"

subsection \<open>The pagination loop\<close>

definition loop_guard :: "node_config \<Rightarrow> loop_state \<Rightarrow> bool" where
  "loop_guard cfg s \<longleftrightarrow> int (length (urls s)) < num_images cfg"

partial_function (option) while_loop ::
  "(json \<Rightarrow> string) \<Rightarrow> node_config \<Rightarrow> search_api \<Rightarrow> loop_state \<Rightarrow> (error + loop_state) option" where
  "while_loop repr cfg remote s =
     (if loop_guard cfg s
      then (case loop_body repr cfg remote s of
              Raise e \<Rightarrow> Some (Inl e)
            | Break s' \<Rightarrow> Some (Inr s')
            | Next s' \<Rightarrow> while_loop repr cfg remote s')
      else Some (Inr s))"

text \<open>The part of \<^verbatim>\<open>execute\<close> that the specification calls \<^verbatim>\<open>paginate\<close>: lines 75
  to 140, whose result is the list \<^verbatim>\<open>urls\<close>.\<close>

definition paginate :: "(json \<Rightarrow> string) \<Rightarrow> node_config \<Rightarrow> search_api \<Rightarrow> (error + string list) option" where
  "paginate repr cfg remote = map_option (map_sum id urls) (while_loop repr cfg remote init_state)"

subsection \<open>The download pass\<close>

text \<open>\<^verbatim>\<open>__open_image_from_url\<close>: \<open>http_get\<close> is \<^verbatim>\<open>requests.get\<close> on the image host,
  \<open>image_open\<close> is \<^verbatim>\<open>Image.open\<close> on a buffer of bytes and \<open>image_save_png\<close> is
  \<^verbatim>\<open>img.save(buffer, format="PNG")\<close>; each of the two returns the message of the
  exception it raises, or its value.\<close>

definition open_image_from_url ::
  "(string \<Rightarrow> response) \<Rightarrow> (nat list \<Rightarrow> string + 'img) \<Rightarrow> ('img \<Rightarrow> string + nat list) \<Rightarrow> string \<Rightarrow> error + 'img" where
  "open_image_from_url http_get image_open image_save_png url =
     (let r = http_get url
      in if status_code r = 200
         then (case image_open (content r) of
                 Inl m \<Rightarrow> Inl (ImageError m)
               | Inr img \<Rightarrow>
                  (case image_save_png img of
                     Inl m \<Rightarrow> Inl (ImageError m)
                   | Inr buffer \<Rightarrow>
                      (case image_open buffer of
                         Inl m \<Rightarrow> Inl (ImageError m)
                       | Inr png \<Rightarrow> Inr png)))
         else Inl (ValueError (''Failed to fetch image from URL: '' @ url)))"

text \<open>The list comprehension of line 144: the URLs in order, the first exception ends it.\<close>

fun open_all :: "(string \<Rightarrow> error + 'img) \<Rightarrow> string list \<Rightarrow> error + 'img list" where
  "open_all opn [] = Inr []"
| "open_all opn (u # us) =
     (case opn u of
        Inl e \<Rightarrow> Inl e
      | Inr img \<Rightarrow> (case open_all opn us of Inl e \<Rightarrow> Inl e | Inr imgs \<Rightarrow> Inr (img # imgs)))"

text \<open>\<^verbatim>\<open>execute\<close>: the pagination loop, then the download pass. The table it
  returns has the single column \<^verbatim>\<open>Image\<close> and is the list of its rows here.\<close>

definition execute ::
  "(json \<Rightarrow> string) \<Rightarrow> node_config \<Rightarrow> search_api \<Rightarrow> (string \<Rightarrow> response) \<Rightarrow>
   (nat list \<Rightarrow> string + 'img) \<Rightarrow> ('img \<Rightarrow> string + nat list) \<Rightarrow> (error + 'img list) option" where
  "execute repr cfg remote http_get image_open image_save_png =
     (case paginate repr cfg remote of
        None \<Rightarrow> None
      | Some (Inl e) \<Rightarrow> Some (Inl e)
      | Some (Inr us) \<Rightarrow>
          Some (open_all (open_image_from_url http_get image_open image_save_png) us))"

subsection \<open>Observing a run\<close>

text \<open>The state at the head of the \<^verbatim>\<open>while\<close> loop after \<open>k\<close> complete iterations,
  \<open>None\<close> when the loop has ended before.\<close>

fun loop_head :: "(json \<Rightarrow> string) \<Rightarrow> node_config \<Rightarrow> search_api \<Rightarrow> nat \<Rightarrow> loop_state \<Rightarrow> loop_state option" where
  "loop_head repr cfg remote 0 s = Some s"
| "loop_head repr cfg remote (Suc k) s =
     (if loop_guard cfg s
      then (case loop_body repr cfg remote s of
              Next s' \<Rightarrow> loop_head repr cfg remote k s'
            | _ \<Rightarrow> None)
      else None)"

text \<open>How the loop is left from the state \<open>s\<close> at its head, \<open>None\<close> when it is not left
  there: the guard fails, or the body raises or breaks.\<close>

definition loop_exit :: "(json \<Rightarrow> string) \<Rightarrow> node_config \<Rightarrow> search_api \<Rightarrow> loop_state \<Rightarrow> (error + loop_state) option" where
  "loop_exit repr cfg remote s =
     (if loop_guard cfg s
      then (case loop_body repr cfg remote s of
              Raise e \<Rightarrow> Some (Inl e)
            | Break s' \<Rightarrow> Some (Inr s')
            | Next s' \<Rightarrow> None)
      else Some (Inr s))"

text \<open>The search request number \<open>k\<close> of a run (counted from 0) with the state in which
  it is issued: the one built in iteration \<open>k\<close>, when the run gets there and the guard of
  the loop holds.\<close>

definition request_at :: "(json \<Rightarrow> string) \<Rightarrow> node_config \<Rightarrow> search_api \<Rightarrow> nat \<Rightarrow> (loop_state \<times> search_params) option" where
  "request_at repr cfg remote k =
     (case loop_head repr cfg remote k init_state of
        None \<Rightarrow> None
      | Some s \<Rightarrow> if loop_guard cfg s then Some (s, search_request cfg s) else None)"


subsection \<open>Notions of the specification\<close>

text \<open>The records of a page, when the response is a success whose \<^verbatim>\<open>photos.photo\<close>
  is a list.\<close>

definition page_records :: "response \<Rightarrow> json list option" where
  "page_records r = (case fetch_photo_list r of Inr (JArr ps) \<Rightarrow> Some ps | _ \<Rightarrow> None)"

text \<open>A list item that is a record, that is a JSON object, whatever its fields.\<close>

fun is_record :: "json \<Rightarrow> bool" where
  "is_record (JObj kvs) = True"
| "is_record v = False"

text \<open>The URLs of the valid records of a page, in the order of the page.\<close>

definition record_urls :: "(json \<Rightarrow> string) \<Rightarrow> json \<Rightarrow> string list" where
  "record_urls repr photo =
     (case photo_invalid photo of
        Inr skip \<Rightarrow> if skip then [] else (case photo_url repr photo of Inr u \<Rightarrow> [u] | Inl e \<Rightarrow> [])
      | Inl e \<Rightarrow> [])"

definition page_urls :: "(json \<Rightarrow> string) \<Rightarrow> response \<Rightarrow> string list" where
  "page_urls repr r =
     (case page_records r of None \<Rightarrow> [] | Some ps \<Rightarrow> concat (map (record_urls repr) ps))"


text \<open>A source that never runs dry and never has enough for a target \<open>n\<close>: every answer
  to a request for a page from 1 on is a success whose photo list is not empty and holds
  records only, and all the URLs of valid records that it ever supplies are fewer than
  \<open>n\<close>.\<close>

definition starves :: "(json \<Rightarrow> string) \<Rightarrow> int \<Rightarrow> search_api \<Rightarrow> bool" where
  "starves repr n remote \<longleftrightarrow>
     (\<exists>U. finite U \<and> int (card U) < n \<and>
          (\<forall>rq. 1 \<le> p_page rq \<longrightarrow>
               (\<exists>ps. page_records (remote rq) = Some ps \<and> ps \<noteq> [] \<and> (\<forall>p \<in> set ps. is_record p)) \<and>
               set (page_urls repr (remote rq)) \<subseteq> U))"

text \<open>A response that ends the loop whatever the state: an error status, a body that is
  not JSON or not of the expected shape, or a photo list that is empty.\<close>

definition page_stops :: "response \<Rightarrow> bool" where
  "page_stops r = (case fetch_photo_list r of Inl e \<Rightarrow> True | Inr photo_list \<Rightarrow> \<not> py_truthy photo_list)"

text \<open>The expected shape \<^verbatim>\<open>{"photos": {"photo": ...}}\<close> of a decoded body.\<close>

definition has_photos_photo :: "json \<Rightarrow> bool" where
  "has_photos_photo data =
     (case data of
        JObj kvs \<Rightarrow>
          (case map_of kvs ''photos'' of
             Some (JObj kvs') \<Rightarrow> map_of kvs' ''photo'' \<noteq> None
           | _ \<Rightarrow> False)
      | _ \<Rightarrow> False)"

text \<open>A decoded body that is a JSON object whose entry \<^verbatim>\<open>photos\<close>, when it has one, is
  a JSON object too.\<close>

definition object_body :: "json \<Rightarrow> bool" where
  "object_body data =
     (case data of
        JObj kvs \<Rightarrow>
          (case map_of kvs ''photos'' of
             None \<Rightarrow> True
           | Some (JObj kvs') \<Rightarrow> True
           | Some _ \<Rightarrow> False)
      | _ \<Rightarrow> False)"

text \<open>The exceptions that come from Python's own operations on a decoded value, as
  opposed to the two that the pagination loop raises itself.\<close>

fun lookup_error :: "error \<Rightarrow> bool" where
  "lookup_error TypeError = True"
| "lookup_error (KeyError k) = True"
| "lookup_error e = False"

text \<open>A field of a record: its value when the record is a JSON object that has it.\<close>

definition field :: "json \<Rightarrow> string \<Rightarrow> json option" where
  "field photo k = (case photo of JObj kvs \<Rightarrow> map_of kvs k | _ \<Rightarrow> None)"

text \<open>Validity of a record as the specification words it: the four fields are present
  and each is neither empty nor zero, \<^verbatim>\<open>farm\<close> in particular not the sentinel 0.\<close>

definition spec_valid_record :: "json \<Rightarrow> bool" where
  "spec_valid_record photo \<longleftrightarrow>
     (case field photo ''farm'' of None \<Rightarrow> False | Some v \<Rightarrow> py_truthy v \<and> \<not> py_eq_zero v) \<and>
     (case field photo ''server'' of None \<Rightarrow> False | Some v \<Rightarrow> py_truthy v) \<and>
     (case field photo ''id'' of None \<Rightarrow> False | Some v \<Rightarrow> py_truthy v) \<and>
     (case field photo ''secret'' of None \<Rightarrow> False | Some v \<Rightarrow> py_truthy v)"

text \<open>Validity of a record as the source tests it at lines 116 to 125, read on the
  fields of a JSON object: the four fields are present, \<^verbatim>\<open>farm\<close> is not equal to 0
  (the only test on \<^verbatim>\<open>farm\<close>), and \<^verbatim>\<open>server\<close>, \<^verbatim>\<open>id\<close> and \<^verbatim>\<open>secret\<close> are
  neither empty nor zero.\<close>

definition valid_record :: "json \<Rightarrow> bool" where
  "valid_record photo \<longleftrightarrow>
     (case field photo ''farm'' of None \<Rightarrow> False | Some v \<Rightarrow> \<not> py_eq_zero v) \<and>
     (case field photo ''server'' of None \<Rightarrow> False | Some v \<Rightarrow> py_truthy v) \<and>
     (case field photo ''id'' of None \<Rightarrow> False | Some v \<Rightarrow> py_truthy v) \<and>
     (case field photo ''secret'' of None \<Rightarrow> False | Some v \<Rightarrow> py_truthy v)"

subsection \<open>Example runs\<close>

text \<open>A record with the four fields, a successful search response whose
  \<^verbatim>\<open>photos.photo\<close> is the given list, and the URL of a record with string fields.\<close>

definition photo_record :: "int \<Rightarrow> string \<Rightarrow> string \<Rightarrow> string \<Rightarrow> json" where
  "photo_record farm server ident secret =
     JObj [(''farm'', JInt farm), (''server'', JStr server), (''id'', JStr ident), (''secret'', JStr secret)]"

definition search_page :: "json list \<Rightarrow> response" where
  "search_page ps =
     \<lparr>status_code = 200, body_text = [],
      body_json = Some (JObj [(''photos'', JObj [(''photo'', JArr ps)]), (''stat'', JStr ''ok'')]),
      content = []\<rparr>"

text \<open>The example runs hold no list or dict where a string is built, so the text of
  such a value is never used in them.\<close>

definition no_repr :: "json \<Rightarrow> string" where
  "no_repr v = []"

definition example_config :: "int \<Rightarrow> node_config" where
  "example_config n = \<lparr>api_key = ''key'', search_term = ''cat'', num_images = n\<rparr>"

text \<open>The scenario of the specification: page 1 holds A, A again, B without
  \<^verbatim>\<open>server\<close>, and C; page 2 holds D; every later page is empty.\<close>

definition scenario_remote :: search_api where
  "scenario_remote rq =
     (if p_page rq = 1
      then search_page
             [photo_record 1 ''s'' ''A'' ''x'', photo_record 1 ''s'' ''A'' ''x'',
              JObj [(''farm'', JInt 1), (''id'', JStr ''B''), (''secret'', JStr ''x'')],
              photo_record 1 ''s'' ''C'' ''x'']
      else if p_page rq = 2 then search_page [photo_record 1 ''s'' ''D'' ''x'']
      else search_page [])"

text \<open>A remote source every page of which holds one record without any field.\<close>

definition stuck_remote :: search_api where
  "stuck_remote rq = search_page [JObj []]"

text \<open>A remote source that answers with status 200 and the body
  \<^verbatim>\<open>{"photos": null}\<close>, and one that answers with status 500.\<close>

definition null_photos_remote :: search_api where
  "null_photos_remote rq =
     \<lparr>status_code = 200, body_text = [], body_json = Some (JObj [(''photos'', JNull)]), content = []\<rparr>"

definition failing_remote :: search_api where
  "failing_remote rq =
     \<lparr>status_code = 500, body_text = ''Internal Server Error'', body_json = None, content = []\<rparr>"

text \<open>An image host that has every image but C, and an image library for which an
  image is its bytes.\<close>

definition example_host :: "string \<Rightarrow> response" where
  "example_host url =
     (if url = ''https://farm1.staticflickr.com/s/C_x.jpg''
      then \<lparr>status_code = 404, body_text = ''Not Found'', body_json = None, content = []\<rparr>
      else \<lparr>status_code = 200, body_text = [], body_json = None, content = [255, 216, 255]\<rparr>)"

definition example_open :: "nat list \<Rightarrow> string + nat list" where
  "example_open bytes = Inr bytes"

definition example_save_png :: "nat list \<Rightarrow> string + nat list" where
  "example_save_png img = Inr img"

text \<open>A remote source every page of which holds the same record A, one that answers
  with status 200 and the body \<^verbatim>\<open>{"photos": {}}\<close>, and a record whose \<^verbatim>\<open>farm\<close> is
  the empty string.\<close>

definition repeating_remote :: search_api where
  "repeating_remote rq = search_page [photo_record 1 ''s'' ''A'' ''x'']"

definition empty_photos_remote :: search_api where
  "empty_photos_remote rq =
     \<lparr>status_code = 200, body_text = [], body_json = Some (JObj [(''photos'', JObj [])]), content = []\<rparr>"

definition empty_farm_record :: json where
  "empty_farm_record =
     JObj [(''farm'', JStr []), (''server'', JStr ''s''), (''id'', JStr ''A''), (''secret'', JStr ''x'')]"

section \<open>Properties of the model\<close>

subsection \<open>The loop and its observations\<close>

lemma while_loop_head:
  "loop_head repr cfg remote k s0 = Some s \<Longrightarrow> while_loop repr cfg remote s0 = while_loop repr cfg remote s"
proof (induction k arbitrary: s0)
  case 0
  then show ?case by simp
next
  case (Suc k)
  then show ?case
    by (subst while_loop.simps) (auto split: if_splits step.splits)
qed

lemma while_loop_exit:
  "loop_exit repr cfg remote s = Some r \<Longrightarrow> while_loop repr cfg remote s = Some r"
  by (subst while_loop.simps) (auto simp: loop_exit_def split: if_splits step.splits)

lemma while_loop_Some:
  assumes "while_loop repr cfg remote s0 = Some r"
  shows "\<exists>k s. loop_head repr cfg remote k s0 = Some s \<and> loop_exit repr cfg remote s = Some r"
  using assms
proof (induction rule: while_loop.raw_induct[rotated 1, consumes 1])
  case (1 w repr cfg remote s0 r)
  show ?case
  proof (cases "loop_guard cfg s0")
    case False
    with 1(2) have "loop_head repr cfg remote 0 s0 = Some s0 \<and> loop_exit repr cfg remote s0 = Some r"
      by (simp add: loop_exit_def)
    then show ?thesis by blast
  next
    case True
    show ?thesis
    proof (cases "loop_body repr cfg remote s0")
      case (Next s')
      with True 1(2) have "w repr cfg remote s' = Some r" by simp
      from 1(1)[OF this] obtain k s where
        "loop_head repr cfg remote k s' = Some s" "loop_exit repr cfg remote s = Some r" by blast
      with True Next have "loop_head repr cfg remote (Suc k) s0 = Some s \<and> loop_exit repr cfg remote s = Some r"
        by simp
      then show ?thesis by blast
    next
      case (Raise e)
      with True 1(2) have "loop_head repr cfg remote 0 s0 = Some s0 \<and> loop_exit repr cfg remote s0 = Some r"
        by (simp add: loop_exit_def)
      then show ?thesis by blast
    next
      case (Break s')
      with True 1(2) have "loop_head repr cfg remote 0 s0 = Some s0 \<and> loop_exit repr cfg remote s0 = Some r"
        by (simp add: loop_exit_def)
      then show ?thesis by blast
    qed
  qed
qed

lemma while_loop_iff:
  "while_loop repr cfg remote s0 = Some r \<longleftrightarrow>
   (\<exists>k s. loop_head repr cfg remote k s0 = Some s \<and> loop_exit repr cfg remote s = Some r)"
  using while_loop_Some while_loop_head while_loop_exit by metis

subsection \<open>Records\<close>

lemma contains_obj: "py_contains k (JObj kvs) = Inr (map_of kvs k \<noteq> None)"
  by (simp add: map_of_eq_None_iff)

lemma field_bad_obj:
  "field_bad bad k (JObj kvs) = Inr (case map_of kvs k of None \<Rightarrow> True | Some v \<Rightarrow> bad v)"
  by (auto simp: field_bad_def contains_obj simp del: py_contains.simps split: option.splits)

lemma photo_invalid_obj: "photo_invalid (JObj kvs) = Inr (\<not> valid_record (JObj kvs))"
  by (auto simp: photo_invalid_def field_bad_obj or_else_def valid_record_def field_def split: option.splits)

lemma field_bad_not_obj:
  "field_bad bad k p = Inr False \<Longrightarrow> \<exists>kvs. p = JObj kvs"
  by (cases p) (auto simp: field_bad_def split: if_splits)

lemma photo_invalid_False_obj:
  "photo_invalid p = Inr False \<Longrightarrow> \<exists>kvs. p = JObj kvs"
  unfolding photo_invalid_def or_else_def
  by (auto split: sum.splits if_splits dest: field_bad_not_obj)

lemma photo_invalid_False_iff:
  "photo_invalid p = Inr False \<longleftrightarrow> (\<exists>kvs. p = JObj kvs) \<and> valid_record p"
  using photo_invalid_False_obj photo_invalid_obj by (metis Inr_inject)

lemma photo_url_valid:
  "valid_record p \<Longrightarrow> \<exists>u. photo_url repr p = Inr u"
  by (cases p) (auto simp: valid_record_def field_def photo_url_def split: option.splits)

subsection \<open>The loop over one page\<close>

lemma photo_loop_ConsE:
  assumes "photo_loop repr n (p # ps) us = Inr us'"
  obtains
    (skip) "photo_invalid p = Inr True" "photo_loop repr n ps us = Inr us'"
  | (full) u where "photo_invalid p = Inr False" "photo_url repr p = Inr u"
      "n \<le> int (length (append_new u us))" "us' = append_new u us"
  | (more) u where "photo_invalid p = Inr False" "photo_url repr p = Inr u"
      "\<not> n \<le> int (length (append_new u us))" "photo_loop repr n ps (append_new u us) = Inr us'"
  using assms by (auto simp: Let_def split: sum.splits if_splits)

lemma length_append_new: "length (append_new u us) \<le> Suc (length us)"
  by (simp add: append_new_def)

lemma distinct_append_new: "distinct us \<Longrightarrow> distinct (append_new u us)"
  by (simp add: append_new_def)

lemma prefix_append_new: "prefix us (append_new u us)"
  by (simp add: append_new_def)

lemma set_append_new: "set (append_new u us) = insert u (set us)"
  by (auto simp: append_new_def)

lemma photo_loop_length:
  "int (length us) < n \<Longrightarrow> photo_loop repr n ps us = Inr us' \<Longrightarrow> int (length us') \<le> n"
proof (induction ps arbitrary: us)
  case Nil
  then show ?case by simp
next
  case (Cons p ps)
  from Cons.prems(2) show ?case
  proof (cases rule: photo_loop_ConsE)
    case skip
    with Cons show ?thesis by blast
  next
    case (full u)
    with Cons.prems(1) length_append_new[of u us] show ?thesis by simp
  next
    case (more u)
    then show ?thesis using Cons.IH[of "append_new u us"] by simp
  qed
qed

lemma photo_loop_distinct:
  "distinct us \<Longrightarrow> photo_loop repr n ps us = Inr us' \<Longrightarrow> distinct us'"
proof (induction ps arbitrary: us)
  case Nil
  then show ?case by simp
next
  case (Cons p ps)
  from Cons.prems(2) show ?case
  proof (cases rule: photo_loop_ConsE)
    case skip
    with Cons show ?thesis by blast
  next
    case (full u)
    with Cons.prems(1) show ?thesis by (simp add: distinct_append_new)
  next
    case (more u)
    then show ?thesis using Cons.IH[of "append_new u us"] Cons.prems(1)
      by (simp add: distinct_append_new)
  qed
qed

lemma photo_loop_prefix:
  "photo_loop repr n ps us = Inr us' \<Longrightarrow> prefix us us'"
proof (induction ps arbitrary: us)
  case Nil
  then show ?case by simp
next
  case (Cons p ps)
  from Cons.prems(1) show ?case
  proof (cases rule: photo_loop_ConsE)
    case skip
    with Cons show ?thesis by blast
  next
    case (full u)
    then show ?thesis by (simp add: prefix_append_new)
  next
    case (more u)
    then have "prefix (append_new u us) us'" using Cons.IH by blast
    with prefix_append_new[of us u] show ?thesis using prefix_order.trans by blast
  qed
qed

lemma photo_loop_subset:
  "photo_loop repr n ps us = Inr us' \<Longrightarrow>
   set us' \<subseteq> set us \<union> {u. \<exists>p \<in> set ps. photo_invalid p = Inr False \<and> photo_url repr p = Inr u}"
proof (induction ps arbitrary: us)
  case Nil
  then show ?case by simp
next
  case (Cons p ps)
  from Cons.prems(1) show ?case
  proof (cases rule: photo_loop_ConsE)
    case skip
    with Cons.IH[of us] show ?thesis by auto
  next
    case (full u)
    then show ?thesis by (auto simp: set_append_new)
  next
    case (more u)
    with Cons.IH[of "append_new u us"] show ?thesis by (auto simp: set_append_new)
  qed
qed

lemma photo_loop_member:
  "photo_loop repr n ps us = Inr us' \<Longrightarrow> p \<in> set ps \<Longrightarrow> photo_invalid p = Inr False \<Longrightarrow>
   photo_url repr p = Inr u \<Longrightarrow> u \<in> set us' \<or> n \<le> int (length us')"
proof (induction ps arbitrary: us)
  case Nil
  then show ?case by simp
next
  case (Cons q ps)
  from Cons.prems(1) show ?case
  proof (cases rule: photo_loop_ConsE)
    case skip
    with Cons.prems have "p \<in> set ps" by auto
    with skip Cons show ?thesis by blast
  next
    case (full v)
    then show ?thesis by simp
  next
    case (more v)
    show ?thesis
    proof (cases "p = q")
      case True
      with more Cons.prems(4) have "u \<in> set (append_new v us)" by (simp add: set_append_new)
      moreover from more have "prefix (append_new v us) us'" by (simp add: photo_loop_prefix)
      ultimately show ?thesis using set_mono_prefix by blast
    next
      case False
      with Cons.prems(2) have "p \<in> set ps" by simp
      from Cons.IH[OF more(4) this Cons.prems(3,4)] show ?thesis .
    qed
  qed
qed

text \<open>A page of valid records raises nothing, and a fresh first record makes the list grow.\<close>

lemma photo_loop_valid_total:
  "\<forall>p \<in> set ps. photo_invalid p = Inr False \<Longrightarrow> \<exists>us'. photo_loop repr n ps us = Inr us'"
proof (induction ps arbitrary: us)
  case Nil
  then show ?case by simp
next
  case (Cons p ps)
  then have v: "photo_invalid p = Inr False" by simp
  then obtain u where u: "photo_url repr p = Inr u"
    using photo_url_valid photo_invalid_False_iff by blast
  from Cons obtain us' where "photo_loop repr n ps (append_new u us) = Inr us'" by fastforce
  with v u show ?case by (simp add: Let_def)
qed

lemma photo_loop_progress:
  assumes "photo_loop repr n (p # ps) us = Inr us'" "photo_invalid p = Inr False"
    "photo_url repr p = Inr u" "u \<notin> set us"
  shows "length us < length us'"
proof -
  have len: "length (append_new u us) = Suc (length us)"
    using assms(4) by (simp add: append_new_def)
  from assms(1) show ?thesis
  proof (cases rule: photo_loop_ConsE)
    case skip
    with assms(2) show ?thesis by simp
  next
    case (full v)
    with assms(3) len show ?thesis by simp
  next
    case (more v)
    with assms(3) have "prefix (append_new u us) us'" by (simp add: photo_loop_prefix)
    then have "length (append_new u us) \<le> length us'" by (rule prefix_length_le)
    with len show ?thesis by simp
  qed
qed

subsection \<open>Invariants of the pagination loop\<close>

lemma loop_body_NextE:
  assumes "loop_body repr cfg remote s = Next s'"
  obtains photo_list ps where
    "fetch_photo_list (remote (search_request cfg s)) = Inr photo_list"
    "py_truthy photo_list" "py_iter photo_list = Inr ps"
    "photo_loop repr (num_images cfg) ps (urls s) = Inr (urls s')"
    "page s' = page s + 1"
  using assms by (auto simp: loop_body_def split: sum.splits if_splits)

lemma loop_head_induct:
  assumes "loop_head repr cfg remote k s0 = Some s" "P s0"
    and "\<And>s s'. P s \<Longrightarrow> loop_guard cfg s \<Longrightarrow> loop_body repr cfg remote s = Next s' \<Longrightarrow> P s'"
  shows "P s"
  using assms(1,2)
proof (induction k arbitrary: s0)
  case 0
  then show ?case by simp
next
  case (Suc k)
  from Suc.prems(1) obtain s1 where g: "loop_guard cfg s0"
    and b: "loop_body repr cfg remote s0 = Next s1"
    and h: "loop_head repr cfg remote k s1 = Some s"
    by (auto split: if_splits step.splits)
  from assms(3)[OF Suc.prems(2) g b] have "P s1" .
  from Suc.IH[OF h this] show ?case .
qed

lemma loop_head_length:
  assumes "0 \<le> num_images cfg" "loop_head repr cfg remote k init_state = Some s"
  shows "int (length (urls s)) \<le> num_images cfg"
proof (rule loop_head_induct[OF assms(2)])
  show "int (length (urls init_state)) \<le> num_images cfg"
    using assms(1) by (simp add: init_state_def)
next
  fix s s' assume "loop_guard cfg s" "loop_body repr cfg remote s = Next s'"
  then show "int (length (urls s')) \<le> num_images cfg"
    by (auto simp: loop_guard_def elim!: loop_body_NextE dest: photo_loop_length)
qed

lemma loop_head_page:
  "loop_head repr cfg remote k s0 = Some s \<Longrightarrow> page s = page s0 + int k"
proof (induction k arbitrary: s0)
  case 0
  then show ?case by simp
next
  case (Suc k)
  then show ?case
    by (auto split: if_splits step.splits elim!: loop_body_NextE)
qed

lemma loop_head_distinct:
  assumes "loop_head repr cfg remote k init_state = Some s"
  shows "distinct (urls s)"
proof (rule loop_head_induct[OF assms])
  show "distinct (urls init_state)" by (simp add: init_state_def)
next
  fix s s' assume "distinct (urls s)" "loop_body repr cfg remote s = Next s'"
  then show "distinct (urls s')"
    by (auto elim!: loop_body_NextE dest: photo_loop_distinct)
qed

lemma loop_head_add:
  "loop_head repr cfg remote (k + j) s0 =
     (case loop_head repr cfg remote k s0 of None \<Rightarrow> None | Some s \<Rightarrow> loop_head repr cfg remote j s)"
proof (induction k arbitrary: s0)
  case 0
  show ?case by simp
next
  case (Suc k)
  show ?case
  proof (cases "loop_guard cfg s0")
    case False
    then show ?thesis by simp
  next
    case True
    then show ?thesis
      by (cases "loop_body repr cfg remote s0") (simp_all add: Suc.IH)
  qed
qed

lemma loop_head_after_guard_fails:
  assumes "loop_head repr cfg remote k s0 = Some s" "\<not> loop_guard cfg s" "k < j"
  shows "loop_head repr cfg remote j s0 = None"
proof -
  from assms(3) have j: "j = k + Suc (j - Suc k)" by simp
  have "loop_head repr cfg remote (k + Suc (j - Suc k)) s0 = loop_head repr cfg remote (Suc (j - Suc k)) s"
    by (simp only: loop_head_add assms(1) option.case)
  also have "\<dots> = None" using assms(2) by simp
  finally show ?thesis using j by simp
qed

subsection \<open>Results of a run, and the fields of a record\<close>

lemma loop_head_prefix:
  "loop_head repr cfg remote k s0 = Some s \<Longrightarrow> prefix (urls s0) (urls s)"
proof (induction k arbitrary: s0)
  case 0
  then show ?case by simp
next
  case (Suc k)
  from Suc.prems obtain s1 where b: "loop_body repr cfg remote s0 = Next s1"
    and h: "loop_head repr cfg remote k s1 = Some s"
    by (auto split: if_splits step.splits)
  from b have "prefix (urls s0) (urls s1)"
    by (auto elim!: loop_body_NextE dest: photo_loop_prefix)
  with Suc.IH[OF h] show ?case using prefix_order.trans by blast
qed

lemma loop_exit_urls:
  "loop_exit repr cfg remote s = Some (Inr s') \<Longrightarrow> s' = s"
  by (auto simp: loop_exit_def loop_body_def split: if_splits step.splits sum.splits)

lemma paginate_Inr:
  assumes "paginate repr cfg remote = Some (Inr us)"
  obtains k s where "loop_head repr cfg remote k init_state = Some s" "us = urls s"
    "loop_exit repr cfg remote s = Some (Inr s)"
proof -
  from assms obtain s' where w: "while_loop repr cfg remote init_state = Some (Inr s')" and us: "us = urls s'"
    by (cases "while_loop repr cfg remote init_state")
       (auto simp: paginate_def map_sum_def split: sum.splits)
  from while_loop_Some[OF w] obtain k s where h: "loop_head repr cfg remote k init_state = Some s"
    and e: "loop_exit repr cfg remote s = Some (Inr s')" by blast
  from loop_exit_urls[OF e] have "s' = s" .
  with h e us that show ?thesis by blast
qed

lemma paginate_distinct:
  "paginate repr cfg remote = Some (Inr us) \<Longrightarrow> distinct us"
  by (erule paginate_Inr) (simp add: loop_head_distinct)

lemma distinct_count_list: "distinct xs \<Longrightarrow> x \<in> set xs \<Longrightarrow> count_list xs x = 1"
  by (induction xs) auto

lemma field_valid_obj: "valid_record p \<Longrightarrow> \<exists>kvs. p = JObj kvs"
  by (cases p) (auto simp: valid_record_def field_def)

lemma photo_url_fields:
  "photo_url repr (JObj kvs) =
     (case field (JObj kvs) ''farm'' of None \<Rightarrow> Inl (KeyError ''farm'') | Some farm \<Rightarrow>
     (case field (JObj kvs) ''server'' of None \<Rightarrow> Inl (KeyError ''server'') | Some server \<Rightarrow>
     (case field (JObj kvs) ''id'' of None \<Rightarrow> Inl (KeyError ''id'') | Some ident \<Rightarrow>
     (case field (JObj kvs) ''secret'' of None \<Rightarrow> Inl (KeyError ''secret'') | Some secret \<Rightarrow>
        Inr (''https://farm'' @ py_str repr farm @ ''.staticflickr.com/'' @ py_str repr server
             @ ''/'' @ py_str repr ident @ ''_'' @ py_str repr secret @ ''.jpg'')))))"
  by (simp add: photo_url_def field_def split: option.splits)

lemma same_fields_same_url:
  assumes "valid_record p" "field q ''farm'' = field p ''farm''" "field q ''server'' = field p ''server''"
    "field q ''id'' = field p ''id''" "field q ''secret'' = field p ''secret''"
  shows "photo_url repr q = photo_url repr p"
proof -
  from assms(1) obtain kvs where p: "p = JObj kvs" using field_valid_obj by blast
  from assms(1,2) have "field q ''farm'' \<noteq> None"
    by (auto simp: valid_record_def split: option.splits)
  then obtain kvs' where q: "q = JObj kvs'" by (cases q) (auto simp: field_def)
  show ?thesis
    unfolding p q photo_url_fields
    by (simp only: assms(2-5)[unfolded p q])
qed

subsection \<open>Termination\<close>

lemma loop_head_Suc_end:
  "loop_head repr cfg remote (Suc k) s0 =
     (case loop_head repr cfg remote k s0 of None \<Rightarrow> None
      | Some s \<Rightarrow>
          if loop_guard cfg s
          then (case loop_body repr cfg remote s of Next s' \<Rightarrow> Some s' | _ \<Rightarrow> None)
          else None)"
proof -
  have "loop_head repr cfg remote (k + Suc 0) s0 =
     (case loop_head repr cfg remote k s0 of None \<Rightarrow> None
      | Some s \<Rightarrow> loop_head repr cfg remote (Suc 0) s)"
    by (rule loop_head_add)
  moreover have "loop_head repr cfg remote (Suc 0) s =
      (if loop_guard cfg s
       then (case loop_body repr cfg remote s of Next s' \<Rightarrow> Some s' | _ \<Rightarrow> None)
       else None)" for s
    by (cases "loop_body repr cfg remote s") simp_all
  ultimately show ?thesis
    by (cases "loop_head repr cfg remote k s0") (simp_all del: loop_head.simps)
qed

lemma loop_head_last:
  assumes "loop_head repr cfg remote k s0 = Some s" "loop_head repr cfg remote (Suc k) s0 = None"
  shows "\<exists>r. loop_exit repr cfg remote s = Some r"
proof -
  from assms(2) have "(if loop_guard cfg s
          then (case loop_body repr cfg remote s of Next s' \<Rightarrow> Some s' | _ \<Rightarrow> None)
          else None) = None"
    by (simp only: loop_head_Suc_end assms(1) option.case)
  then show ?thesis
    by (cases "loop_body repr cfg remote s") (auto simp: loop_exit_def split: if_splits)
qed

lemma loop_head_None_exit:
  "loop_head repr cfg remote n s0 = None \<Longrightarrow>
   \<exists>k s r. k < n \<and> loop_head repr cfg remote k s0 = Some s \<and> loop_exit repr cfg remote s = Some r"
proof (induction n)
  case 0
  then show ?case by simp
next
  case (Suc n)
  show ?case
  proof (cases "loop_head repr cfg remote n s0")
    case None
    from Suc.IH[OF None] obtain k s r where "k < n" "loop_head repr cfg remote k s0 = Some s"
      "loop_exit repr cfg remote s = Some r" by blast
    then have "k < Suc n \<and> loop_head repr cfg remote k s0 = Some s \<and> loop_exit repr cfg remote s = Some r"
      by simp
    then show ?thesis by blast
  next
    case (Some s)
    from loop_head_last[OF Some Suc.prems] obtain r where "loop_exit repr cfg remote s = Some r" ..
    with Some have "n < Suc n \<and> loop_head repr cfg remote n s0 = Some s \<and> loop_exit repr cfg remote s = Some r"
      by simp
    then show ?thesis by blast
  qed
qed

lemma while_loop_terminates:
  assumes "loop_head repr cfg remote n s0 = None"
  shows "\<exists>r. while_loop repr cfg remote s0 = Some r"
proof -
  from loop_head_None_exit[OF assms] obtain k s r where
    h: "loop_head repr cfg remote k s0 = Some s" and e: "loop_exit repr cfg remote s = Some r"
    by blast
  from while_loop_head[OF h] while_loop_exit[OF e]
  have "while_loop repr cfg remote s0 = Some r" by simp
  then show ?thesis ..
qed

lemma loop_head_None_mono:
  assumes "loop_head repr cfg remote n s0 = None" "n \<le> j"
  shows "loop_head repr cfg remote j s0 = None"
proof -
  from assms(2) have "j = n + (j - n)" by simp
  then have "loop_head repr cfg remote j s0 = loop_head repr cfg remote (n + (j - n)) s0" by simp
  also have "\<dots> = None" by (simp only: loop_head_add assms(1) option.case)
  finally show ?thesis .
qed

lemma search_request_page: "p_page (search_request cfg s) = page s"
  by (simp add: search_request_def Let_def)

lemma stopping_page_ends:
  assumes "1 \<le> P" "\<forall>rq. p_page rq = P \<longrightarrow> page_stops (remote rq)"
  shows "loop_head repr cfg remote (nat P) init_state = None"
proof (rule ccontr)
  assume "loop_head repr cfg remote (nat P) init_state \<noteq> None"
  then obtain s where s: "loop_head repr cfg remote (nat P) init_state = Some s" by blast
  from assms(1) obtain m where m: "nat P = Suc m" by (cases "nat P") auto
  from s have "(case loop_head repr cfg remote m init_state of None \<Rightarrow> None
      | Some s1 \<Rightarrow>
          if loop_guard cfg s1
          then (case loop_body repr cfg remote s1 of Next s' \<Rightarrow> Some s' | _ \<Rightarrow> None)
          else None) = Some s"
    by (simp only: m loop_head_Suc_end)
  then obtain s1 where h1: "loop_head repr cfg remote m init_state = Some s1"
    and b: "loop_body repr cfg remote s1 = Next s"
    by (auto split: option.splits if_splits step.splits)
  from loop_head_page[OF h1] m assms(1) have pg: "page s1 = P"
    by (simp add: init_state_def)
  from b obtain photo_list where f: "fetch_photo_list (remote (search_request cfg s1)) = Inr photo_list"
    and t: "py_truthy photo_list"
    by (rule loop_body_NextE)
  from assms(2) pg have "page_stops (remote (search_request cfg s1))"
    by (simp add: search_request_page)
  with f t show False by (simp add: page_stops_def)
qed

text \<open>The definitions that a concrete run unfolds.\<close>

lemmas run_defs =
  paginate_def while_loop.simps loop_guard_def init_state_def example_config_def loop_body_def
  search_request_def fetch_photo_list_def search_page_def photos_missing_def or_else_def
  photo_record_def photo_invalid_def field_bad_def photo_url_def append_new_def
  max_per_page_def str_int_def str_nat.simps request_at_def loop_exit_def no_repr_def

lemma page_records_fetch:
  "page_records r = Some ps \<Longrightarrow> fetch_photo_list r = Inr (JArr ps)"
  by (auto simp: page_records_def split: sum.splits json.splits)

subsection \<open>Sources of records\<close>

lemma is_record_valid_or_skipped:
  "is_record p \<Longrightarrow> photo_invalid p = Inr (\<not> valid_record p)"
  by (cases p) (simp_all add: photo_invalid_obj)

lemma photo_loop_records_total:
  "\<forall>p \<in> set ps. is_record p \<Longrightarrow> \<exists>us'. photo_loop repr n ps us = Inr us'"
proof (induction ps arbitrary: us)
  case Nil
  then show ?case by simp
next
  case (Cons p ps)
  then have r: "is_record p" and rest: "\<forall>p \<in> set ps. is_record p" by simp_all
  show ?case
  proof (cases "valid_record p")
    case False
    with r have "photo_invalid p = Inr True" by (simp add: is_record_valid_or_skipped)
    then have "photo_loop repr n (p # ps) us = photo_loop repr n ps us" by simp
    with Cons.IH[OF rest, of us] show ?thesis by simp
  next
    case True
    with r have v: "photo_invalid p = Inr False" by (simp add: is_record_valid_or_skipped)
    from True obtain u where u: "photo_url repr p = Inr u" using photo_url_valid by blast
    from v u have eq: "photo_loop repr n (p # ps) us =
        (if n \<le> int (length (append_new u us)) then Inr (append_new u us)
         else photo_loop repr n ps (append_new u us))"
      by (simp add: Let_def)
    show ?thesis
    proof (cases "n \<le> int (length (append_new u us))")
      case True
      with eq show ?thesis by simp
    next
      case False
      with eq Cons.IH[OF rest, of "append_new u us"] show ?thesis by simp
    qed
  qed
qed

lemma record_urls_iff:
  "u \<in> set (record_urls repr p) \<longleftrightarrow> photo_invalid p = Inr False \<and> photo_url repr p = Inr u"
proof (cases "photo_invalid p")
  case (Inl e)
  then show ?thesis by (simp add: record_urls_def)
next
  case (Inr skip)
  show ?thesis
  proof (cases skip)
    case True
    with Inr show ?thesis by (simp add: record_urls_def)
  next
    case False
    with Inr show ?thesis
      by (cases "photo_url repr p") (simp_all add: record_urls_def eq_commute)
  qed
qed

lemma page_urls_iff:
  "u \<in> set (page_urls repr r) \<longleftrightarrow>
     (\<exists>ps p. page_records r = Some ps \<and> p \<in> set ps \<and> photo_invalid p = Inr False \<and>
        photo_url repr p = Inr u)"
proof (cases "page_records r")
  case None
  then show ?thesis by (simp add: page_urls_def)
next
  case (Some ps)
  then have "u \<in> set (page_urls repr r) \<longleftrightarrow> (\<exists>p \<in> set ps. u \<in> set (record_urls repr p))"
    by (simp add: page_urls_def)
  also have "\<dots> \<longleftrightarrow> (\<exists>p. p \<in> set ps \<and> photo_invalid p = Inr False \<and> photo_url repr p = Inr u)"
    by (simp only: record_urls_iff bex_simps Bex_def)
  finally show ?thesis using Some by simp
qed

text \<open>One iteration on a page that holds records only.\<close>

lemma records_step:
  assumes g: "loop_guard cfg s"
    and rec: "page_records (remote (search_request cfg s)) = Some ps"
    and ne: "ps \<noteq> []" and obj: "\<forall>p \<in> set ps. is_record p"
  obtains s' where "loop_body repr cfg remote s = Next s'"
    "set (urls s') \<subseteq> set (urls s) \<union> set (page_urls repr (remote (search_request cfg s)))"
    "set (urls s) \<subseteq> set (urls s')"
    "\<not> loop_guard cfg s' \<or> set (page_urls repr (remote (search_request cfg s))) \<subseteq> set (urls s')"
proof -
  let ?rq = "search_request cfg s"
  from rec have f: "fetch_photo_list (remote ?rq) = Inr (JArr ps)" by (rule page_records_fetch)
  from photo_loop_records_total[OF obj] obtain us' where
    run: "photo_loop repr (num_images cfg) ps (urls s) = Inr us'" by blast
  let ?s' = "\<lparr>urls = us', page = page s + 1\<rparr>"
  from f ne run have body: "loop_body repr cfg remote s = Next ?s'"
    by (simp add: loop_body_def)
  have sub: "set (urls ?s') \<subseteq> set (urls s) \<union> set (page_urls repr (remote ?rq))"
  proof
    fix u assume "u \<in> set (urls ?s')"
    then have "u \<in> set us'" by simp
    with photo_loop_subset[OF run] have
      "u \<in> set (urls s) \<or> (\<exists>p \<in> set ps. photo_invalid p = Inr False \<and> photo_url repr p = Inr u)"
      by auto
    then show "u \<in> set (urls s) \<union> set (page_urls repr (remote ?rq))"
    proof
      assume "u \<in> set (urls s)"
      then show ?thesis by simp
    next
      assume "\<exists>p \<in> set ps. photo_invalid p = Inr False \<and> photo_url repr p = Inr u"
      then obtain p where "p \<in> set ps" "photo_invalid p = Inr False" "photo_url repr p = Inr u"
        by auto
      with rec have "\<exists>ps p. page_records (remote ?rq) = Some ps \<and> p \<in> set ps \<and>
          photo_invalid p = Inr False \<and> photo_url repr p = Inr u"
        by (intro exI[of _ ps] exI[of _ p]) simp
      then show ?thesis by (simp only: page_urls_iff Un_iff simp_thms)
    qed
  qed
  have mono: "set (urls s) \<subseteq> set (urls ?s')"
    using set_mono_prefix[OF photo_loop_prefix[OF run]] by simp
  have all: "\<not> loop_guard cfg ?s' \<or> set (page_urls repr (remote ?rq)) \<subseteq> set (urls ?s')"
  proof (cases "num_images cfg \<le> int (length us')")
    case True
    then show ?thesis by (simp add: loop_guard_def)
  next
    case False
    have "set (page_urls repr (remote ?rq)) \<subseteq> set us'"
    proof
      fix u assume "u \<in> set (page_urls repr (remote ?rq))"
      then have "\<exists>qs p. page_records (remote ?rq) = Some qs \<and> p \<in> set qs \<and>
          photo_invalid p = Inr False \<and> photo_url repr p = Inr u"
        by (simp only: page_urls_iff)
      with rec obtain p where "p \<in> set ps" "photo_invalid p = Inr False" "photo_url repr p = Inr u"
        by auto
      from photo_loop_member[OF run this] False show "u \<in> set us'" by simp
    qed
    then show ?thesis by simp
  qed
  from that[OF body sub mono all] show ?thesis .
qed



text \<open>A run that never leaves the loop.\<close>

lemma stuck_step:
  assumes "urls s = []"
  shows "loop_body no_repr (example_config 1) stuck_remote s = Next \<lparr>urls = [], page = page s + 1\<rparr>"
  using assms by (simp add: run_defs stuck_remote_def)

lemma stuck_heads:
  assumes "loop_head no_repr (example_config 1) stuck_remote k init_state = Some s"
  shows "urls s = []"
proof (rule loop_head_induct[OF assms])
  show "urls init_state = []" by (simp add: init_state_def)
next
  fix s s' assume "urls s = []" "loop_body no_repr (example_config 1) stuck_remote s = Next s'"
  then show "urls s' = []" by (auto simp: stuck_step)
qed

subsection \<open>The download pass\<close>

lemma open_image_failed_iff:
  "(\<exists>m. open_image_from_url http_get image_open image_save_png url = Inl (ValueError m))
     \<longleftrightarrow> status_code (http_get url) \<noteq> 200"
  by (auto simp: open_image_from_url_def Let_def split: sum.splits)

lemma open_image_not_200:
  "status_code (http_get url) \<noteq> 200 \<Longrightarrow>
   open_image_from_url http_get image_open image_save_png url =
     Inl (ValueError (''Failed to fetch image from URL: '' @ url))"
  by (simp add: open_image_from_url_def Let_def)

lemma open_all_first_failure:
  "\<forall>v \<in> set pre. \<exists>img. opn v = Inr img \<Longrightarrow> opn u = Inl e \<Longrightarrow>
   open_all opn (pre @ u # post) = Inl e"
  by (induction pre) auto

lemma open_all_some_failure:
  "u \<in> set us \<Longrightarrow> opn u = Inl e \<Longrightarrow> \<exists>e'. open_all opn us = Inl e'"
  by (induction us) (auto split: sum.splits)

lemma open_all_length:
  "open_all opn us = Inr imgs \<Longrightarrow> length imgs = length us"
  by (induction us arbitrary: imgs) (auto split: sum.splits)

subsection \<open>Which exception the pagination raises\<close>

lemma py_contains_error: "py_contains k v = Inl e \<Longrightarrow> lookup_error e"
  by (cases v) auto

lemma py_getitem_error: "py_getitem v k = Inl e \<Longrightarrow> lookup_error e"
  by (cases v) (auto split: option.splits)

lemma py_iter_error: "py_iter v = Inl e \<Longrightarrow> lookup_error e"
  by (cases v) auto

lemma field_bad_lookup_error: "field_bad bad k p = Inl e \<Longrightarrow> lookup_error e"
  by (auto simp: field_bad_def split: sum.splits if_splits dest: py_contains_error py_getitem_error)

lemma or_else_error:
  "or_else a b = Inl e \<Longrightarrow> a = Inl e \<or> b = Inl e"
  by (auto simp: or_else_def split: sum.splits if_splits)

lemma photo_invalid_error: "photo_invalid p = Inl e \<Longrightarrow> lookup_error e"
  unfolding photo_invalid_def
  by (auto dest!: or_else_error dest: field_bad_lookup_error)

lemma photo_url_error: "photo_url repr p = Inl e \<Longrightarrow> lookup_error e"
  by (auto simp: photo_url_def split: sum.splits dest: py_getitem_error)

lemma photo_loop_error: "photo_loop repr n ps us = Inl e \<Longrightarrow> lookup_error e"
proof (induction ps arbitrary: us)
  case Nil
  then show ?case by simp
next
  case (Cons p ps)
  show ?case
  proof (cases "photo_invalid p")
    case (Inl e')
    with Cons.prems have "e' = e" by simp
    with Inl show ?thesis by (simp add: photo_invalid_error)
  next
    case (Inr skip)
    show ?thesis
    proof (cases skip)
      case True
      with Inr Cons show ?thesis by simp
    next
      case False
      show ?thesis
      proof (cases "photo_url repr p")
        case (Inl e')
        with Inr False Cons.prems have "e' = e" by simp
        with Inl show ?thesis by (simp add: photo_url_error)
      next
        case u: (Inr u)
        with Inr False Cons.prems have "photo_loop repr n ps (append_new u us) = Inl e"
          by (simp add: Let_def split: if_splits)
        then show ?thesis by (rule Cons.IH)
      qed
    qed
  qed
qed

lemma photos_missing_error: "photos_missing data = Inl e \<Longrightarrow> lookup_error e"
  unfolding photos_missing_def
  by (auto dest!: or_else_error simp: map_sum_def split: sum.splits
      dest: py_contains_error py_getitem_error)

lemma fetch_RuntimeError_iff:
  "fetch_photo_list r = Inl (RuntimeError m) \<longleftrightarrow>
     status_code r \<noteq> 200 \<and> m = ''Failed to fetch data from Flickr API: '' @ body_text r"
  by (auto simp: fetch_photo_list_def split: option.splits sum.splits
      dest: photos_missing_error py_getitem_error)

lemma fetch_ValueError_iff:
  "fetch_photo_list r = Inl (ValueError m) \<longleftrightarrow>
     status_code r = 200 \<and> (\<exists>data. body_json r = Some data \<and> photos_missing data = Inr True) \<and>
     m = ''Unexpected API response format.''"
  by (auto simp: fetch_photo_list_def split: option.splits sum.splits
      dest: photos_missing_error py_getitem_error)

lemma loop_body_Raise_iff:
  "\<not> lookup_error e \<Longrightarrow>
   loop_body repr cfg remote s = Raise e \<longleftrightarrow> fetch_photo_list (remote (search_request cfg s)) = Inl e"
  by (auto simp: loop_body_def split: sum.splits dest: py_iter_error photo_loop_error)

lemma paginate_Inl_iff:
  "paginate repr cfg remote = Some (Inl e) \<longleftrightarrow>
     (\<exists>k s rq. request_at repr cfg remote k = Some (s, rq) \<and> loop_body repr cfg remote s = Raise e)"
proof
  assume "paginate repr cfg remote = Some (Inl e)"
  then have "while_loop repr cfg remote init_state = Some (Inl e)"
    by (cases "while_loop repr cfg remote init_state")
       (auto simp: paginate_def map_sum_def split: sum.splits)
  from while_loop_Some[OF this] obtain k s where
    h: "loop_head repr cfg remote k init_state = Some s"
    and e: "loop_exit repr cfg remote s = Some (Inl e)" by blast
  from e have "loop_guard cfg s \<and> loop_body repr cfg remote s = Raise e"
    by (auto simp: loop_exit_def split: if_splits step.splits)
  with h have "request_at repr cfg remote k = Some (s, search_request cfg s) \<and>
      loop_body repr cfg remote s = Raise e"
    by (simp add: request_at_def)
  then show "\<exists>k s rq. request_at repr cfg remote k = Some (s, rq) \<and> loop_body repr cfg remote s = Raise e"
    by blast
next
  assume "\<exists>k s rq. request_at repr cfg remote k = Some (s, rq) \<and> loop_body repr cfg remote s = Raise e"
  then obtain k s rq where r: "request_at repr cfg remote k = Some (s, rq)"
    and b: "loop_body repr cfg remote s = Raise e" by blast
  from r have h: "loop_head repr cfg remote k init_state = Some s" and g: "loop_guard cfg s"
    by (auto simp: request_at_def split: option.splits if_splits)
  from g b have "loop_exit repr cfg remote s = Some (Inl e)" by (simp add: loop_exit_def)
  from while_loop_exit[OF this] while_loop_head[OF h]
  have "while_loop repr cfg remote init_state = Some (Inl e)" by simp
  then show "paginate repr cfg remote = Some (Inl e)" by (simp add: paginate_def)
qed

lemma request_at_rq:
  "request_at repr cfg remote k = Some (s, rq) \<Longrightarrow> rq = search_request cfg s"
  by (auto simp: request_at_def split: option.splits if_splits)

lemma photos_missing_object:
  assumes "object_body data"
  shows "photos_missing data = Inr (\<not> has_photos_photo data)"
proof -
  from assms obtain kvs where d: "data = JObj kvs"
    by (cases data) (auto simp: object_body_def)
  show ?thesis
  proof (cases "map_of kvs ''photos''")
    case None
    then show ?thesis
      by (simp add: d photos_missing_def or_else_def has_photos_photo_def contains_obj
          del: py_contains.simps)
  next
    case (Some v)
    with assms d obtain kvs' where v: "v = JObj kvs'"
      by (cases v) (auto simp: object_body_def)
    with Some show ?thesis
      by (simp add: d photos_missing_def or_else_def has_photos_photo_def contains_obj
          del: py_contains.simps)
  qed
qed

lemma request_is_last_when_not_next:
  assumes r: "request_at repr cfg remote k = Some (s, rq)"
    and b: "\<forall>s'. loop_body repr cfg remote s \<noteq> Next s'"
    and j: "k < j"
  shows "request_at repr cfg remote j = None"
proof -
  from r have h: "loop_head repr cfg remote k init_state = Some s"
    by (auto simp: request_at_def split: option.splits if_splits)
  have "loop_head repr cfg remote (Suc k) init_state =
      (if loop_guard cfg s
       then (case loop_body repr cfg remote s of Next s' \<Rightarrow> Some s' | _ \<Rightarrow> None)
       else None)"
    by (simp only: loop_head_Suc_end h option.case)
  also from b have "\<dots> = None"
    by (cases "loop_body repr cfg remote s") simp_all
  finally have "loop_head repr cfg remote (Suc k) init_state = None" .
  moreover from j have "Suc k \<le> j" by simp
  ultimately have "loop_head repr cfg remote j init_state = None" by (rule loop_head_None_mono)
  then show ?thesis by (simp add: request_at_def)
qed

subsection \<open>The scenario of the specification\<close>






subsection \<open>How a run ends, and runs that do not end\<close>

lemma loop_body_Break_iff:
  "loop_body repr cfg remote s = Break s' \<longleftrightarrow>
     s' = s \<and> (\<exists>photo_list. fetch_photo_list (remote (search_request cfg s)) = Inr photo_list \<and>
                \<not> py_truthy photo_list)"
proof (cases "fetch_photo_list (remote (search_request cfg s))")
  case (Inl e)
  then show ?thesis by (simp add: loop_body_def)
next
  case (Inr photo_list)
  show ?thesis
  proof (cases "py_truthy photo_list")
    case False
    with Inr show ?thesis by (auto simp: loop_body_def)
  next
    case True
    with Inr show ?thesis
      by (cases "py_iter photo_list";
          cases "photo_loop repr (num_images cfg) (projr (py_iter photo_list)) (urls s)")
         (simp_all add: loop_body_def)
  qed
qed

lemma loop_exit_iff:
  "loop_exit repr cfg remote s = Some r \<longleftrightarrow>
     (\<not> loop_guard cfg s \<and> r = Inr s) \<or>
     (loop_guard cfg s \<and> loop_body repr cfg remote s = Break s \<and> r = Inr s) \<or>
     (loop_guard cfg s \<and> (\<exists>e. loop_body repr cfg remote s = Raise e \<and> r = Inl e))"
proof (cases "loop_guard cfg s")
  case False
  then show ?thesis by (auto simp: loop_exit_def)
next
  case True
  show ?thesis
  proof (cases "loop_body repr cfg remote s")
    case (Raise e)
    with True show ?thesis by (auto simp: loop_exit_def)
  next
    case (Break s')
    then have "s' = s" by (simp add: loop_body_Break_iff)
    with Break True show ?thesis by (auto simp: loop_exit_def)
  next
    case (Next s')
    with True show ?thesis by (auto simp: loop_exit_def)
  qed
qed

lemma paginate_Some_iff:
  "paginate repr cfg remote = Some r \<longleftrightarrow>
     (\<exists>k s. loop_head repr cfg remote k init_state = Some s \<and>
        (num_images cfg \<le> int (length (urls s)) \<and> r = Inr (urls s) \<or>
         loop_guard cfg s \<and>
           (\<exists>photo_list. fetch_photo_list (remote (search_request cfg s)) = Inr photo_list \<and>
              \<not> py_truthy photo_list) \<and> r = Inr (urls s) \<or>
         loop_guard cfg s \<and> (\<exists>e. loop_body repr cfg remote s = Raise e \<and> r = Inl e)))"
  (is "?L \<longleftrightarrow> ?R")
proof
  assume ?L
  then obtain r' where w: "while_loop repr cfg remote init_state = Some r'" and r: "r = map_sum id urls r'"
    by (cases "while_loop repr cfg remote init_state") (simp_all add: paginate_def)
  from while_loop_Some[OF w] obtain k s where h: "loop_head repr cfg remote k init_state = Some s"
    and e: "loop_exit repr cfg remote s = Some r'" by auto
  from e have "(\<not> loop_guard cfg s \<and> r' = Inr s) \<or>
     (loop_guard cfg s \<and> loop_body repr cfg remote s = Break s \<and> r' = Inr s) \<or>
     (loop_guard cfg s \<and> (\<exists>e. loop_body repr cfg remote s = Raise e \<and> r' = Inl e))"
    by (simp only: loop_exit_iff)
  then have "num_images cfg \<le> int (length (urls s)) \<and> r = Inr (urls s) \<or>
         loop_guard cfg s \<and>
           (\<exists>photo_list. fetch_photo_list (remote (search_request cfg s)) = Inr photo_list \<and>
              \<not> py_truthy photo_list) \<and> r = Inr (urls s) \<or>
         loop_guard cfg s \<and> (\<exists>e. loop_body repr cfg remote s = Raise e \<and> r = Inl e)"
  proof (elim disjE conjE exE)
    assume "\<not> loop_guard cfg s" "r' = Inr s"
    with r show ?thesis by (simp add: loop_guard_def)
  next
    assume "loop_guard cfg s" "loop_body repr cfg remote s = Break s" "r' = Inr s"
    with r show ?thesis by (simp add: loop_body_Break_iff)
  next
    fix e assume "loop_guard cfg s" "loop_body repr cfg remote s = Raise e" "r' = Inl e"
    with r have "loop_guard cfg s \<and> (\<exists>e. loop_body repr cfg remote s = Raise e \<and> r = Inl e)"
      by simp
    then show ?thesis by simp
  qed
  with h show ?R by (intro exI[of _ k] exI[of _ s] conjI)
next
  assume ?R
  then obtain k s where h: "loop_head repr cfg remote k init_state = Some s"
    and d: "num_images cfg \<le> int (length (urls s)) \<and> r = Inr (urls s) \<or>
         loop_guard cfg s \<and>
           (\<exists>photo_list. fetch_photo_list (remote (search_request cfg s)) = Inr photo_list \<and>
              \<not> py_truthy photo_list) \<and> r = Inr (urls s) \<or>
         loop_guard cfg s \<and> (\<exists>e. loop_body repr cfg remote s = Raise e \<and> r = Inl e)"
    by auto
  from d have "\<exists>r'. loop_exit repr cfg remote s = Some r' \<and> r = map_sum id urls r'"
  proof (elim disjE conjE exE)
    assume "num_images cfg \<le> int (length (urls s))" "r = Inr (urls s)"
    then have "loop_exit repr cfg remote s = Some (Inr s) \<and> r = map_sum id urls (Inr s)"
      by (simp add: loop_exit_def loop_guard_def)
    then show ?thesis ..
  next
    fix photo_list
    assume "loop_guard cfg s" "fetch_photo_list (remote (search_request cfg s)) = Inr photo_list"
      "\<not> py_truthy photo_list" "r = Inr (urls s)"
    then have "loop_exit repr cfg remote s = Some (Inr s) \<and> r = map_sum id urls (Inr s)"
      by (simp add: loop_exit_def loop_body_def)
    then show ?thesis ..
  next
    fix e assume "loop_guard cfg s" "loop_body repr cfg remote s = Raise e" "r = Inl e"
    then have "loop_exit repr cfg remote s = Some (Inl e) \<and> r = map_sum id urls (Inl e)"
      by (simp add: loop_exit_def)
    then show ?thesis ..
  qed
  then obtain r' where e: "loop_exit repr cfg remote s = Some r'" and r: "r = map_sum id urls r'"
    by auto
  from while_loop_exit[OF e] while_loop_head[OF h]
  have "while_loop repr cfg remote init_state = Some r'" by simp
  with r show ?L by (simp add: paginate_def)
qed

lemma starved_run_diverges:
  assumes "starves repr (num_images cfg) remote"
  shows "paginate repr cfg remote = None"
proof -
  from assms obtain U where fin: "finite U" and few: "int (card U) < num_images cfg"
    and src: "\<forall>rq. 1 \<le> p_page rq \<longrightarrow>
               (\<exists>ps. page_records (remote rq) = Some ps \<and> ps \<noteq> [] \<and> (\<forall>p \<in> set ps. is_record p)) \<and>
               set (page_urls repr (remote rq)) \<subseteq> U"
    unfolding starves_def by auto
  have step: "\<exists>s'. loop_guard cfg s \<and> loop_body repr cfg remote s = Next s' \<and>
        set (urls s') \<subseteq> U \<and> 1 \<le> page s'"
    if inv: "set (urls s) \<subseteq> U \<and> 1 \<le> page s" and d: "distinct (urls s)" for s
  proof -
    let ?rq = "search_request cfg s"
    from d have "length (urls s) = card (set (urls s))" by (simp add: distinct_card)
    also from inv fin have "\<dots> \<le> card U" by (intro card_mono) simp_all
    finally have g: "loop_guard cfg s" using few by (simp add: loop_guard_def)
    from inv have "1 \<le> p_page ?rq" by (simp add: search_request_page)
    with src have "(\<exists>ps. page_records (remote ?rq) = Some ps \<and> ps \<noteq> [] \<and> (\<forall>p \<in> set ps. is_record p)) \<and>
               set (page_urls repr (remote ?rq)) \<subseteq> U"
      by (elim allE[of _ ?rq]) simp
    then obtain ps where rec: "page_records (remote ?rq) = Some ps" and ne: "ps \<noteq> []"
      and obj: "\<forall>p \<in> set ps. is_record p" and pu: "set (page_urls repr (remote ?rq)) \<subseteq> U"
      by auto
    from records_step[where cfg=cfg and s=s and remote=remote and ps=ps and repr=repr, OF g rec ne obj]
    obtain s' where b: "loop_body repr cfg remote s = Next s'"
      and sub: "set (urls s') \<subseteq> set (urls s) \<union> set (page_urls repr (remote ?rq))"
      and "set (urls s) \<subseteq> set (urls s')"
      and "\<not> loop_guard cfg s' \<or> set (page_urls repr (remote ?rq)) \<subseteq> set (urls s')"
      .
    from b have "page s' = page s + 1" by (rule loop_body_NextE)
    with inv have "1 \<le> page s'" by simp
    moreover from sub inv pu have "set (urls s') \<subseteq> U" by auto
    ultimately show ?thesis using g b by (intro exI[of _ s'] conjI)
  qed
  have heads: "set (urls s) \<subseteq> U \<and> 1 \<le> page s \<and> distinct (urls s)"
    if h: "loop_head repr cfg remote k init_state = Some s" for k s
  proof (rule loop_head_induct[OF h])
    show "set (urls init_state) \<subseteq> U \<and> 1 \<le> page init_state \<and> distinct (urls init_state)"
      by (simp add: init_state_def)
  next
    fix s s' assume i: "set (urls s) \<subseteq> U \<and> 1 \<le> page s \<and> distinct (urls s)"
      and b: "loop_body repr cfg remote s = Next s'"
    from i have "set (urls s) \<subseteq> U \<and> 1 \<le> page s" "distinct (urls s)" by simp_all
    from step[OF this] b have "set (urls s') \<subseteq> U \<and> 1 \<le> page s'" by auto
    moreover from b i have "distinct (urls s')"
      by (auto elim!: loop_body_NextE dest: photo_loop_distinct)
    ultimately show "set (urls s') \<subseteq> U \<and> 1 \<le> page s' \<and> distinct (urls s')" by simp
  qed
  have "while_loop repr cfg remote init_state = None"
  proof (rule ccontr)
    assume "while_loop repr cfg remote init_state \<noteq> None"
    then obtain r where "while_loop repr cfg remote init_state = Some r" by auto
    from while_loop_Some[OF this] obtain k s where
      h: "loop_head repr cfg remote k init_state = Some s"
      and e: "loop_exit repr cfg remote s = Some r" by auto
    from heads[OF h] have "set (urls s) \<subseteq> U \<and> 1 \<le> page s" "distinct (urls s)" by simp_all
    from step[OF this] obtain s' where "loop_guard cfg s" "loop_body repr cfg remote s = Next s'"
      by auto
    then have "loop_exit repr cfg remote s = None" by (simp add: loop_exit_def)
    with e show False by simp
  qed
  then show ?thesis by (simp add: paginate_def)
qed

lemma repeating_starves: "starves no_repr 2 repeating_remote"
  unfolding starves_def
proof (intro exI[of _ "{''https://farm1.staticflickr.com/s/A_x.jpg''}"] conjI allI impI)
  show "finite {''https://farm1.staticflickr.com/s/A_x.jpg''}" by simp
  show "int (card {''https://farm1.staticflickr.com/s/A_x.jpg''}) < 2" by simp
next
  fix rq :: search_params
  have r: "page_records (repeating_remote rq) = Some [photo_record 1 ''s'' ''A'' ''x'']"
    by (simp add: page_records_def repeating_remote_def fetch_photo_list_def search_page_def
        photos_missing_def or_else_def)
  then show "\<exists>ps. page_records (repeating_remote rq) = Some ps \<and> ps \<noteq> [] \<and> (\<forall>p \<in> set ps. is_record p)"
    by (simp add: photo_record_def)
  from r show "set (page_urls no_repr (repeating_remote rq)) \<subseteq> {''https://farm1.staticflickr.com/s/A_x.jpg''}"
    by (simp add: page_urls_def record_urls_def photo_record_def photo_invalid_def
        field_bad_def or_else_def photo_url_def str_int_def str_nat.simps)
qed

subsection \<open>The two readings of validity\<close>

lemma spec_valid_iff:
  "spec_valid_record p \<longleftrightarrow> valid_record p \<and> (\<exists>v. field p ''farm'' = Some v \<and> py_truthy v)"
  by (cases "field p ''farm''") (auto simp: spec_valid_record_def valid_record_def)

subsection \<open>The errors of the pagination\<close>

text \<open>The API error is raised exactly for a status other than 200 and is the end of the
  requests; the error of line 106 is raised exactly when the test of line 105 can be
  evaluated and is true.\<close>

lemma pagination_errors:
  "(paginate repr cfg remote = Some (Inl (RuntimeError m)) \<longleftrightarrow>
      (\<exists>k s rq. request_at repr cfg remote k = Some (s, rq) \<and> status_code (remote rq) \<noteq> 200 \<and>
         m = ''Failed to fetch data from Flickr API: '' @ body_text (remote rq))) \<and>
   (paginate repr cfg remote = Some (Inl (ValueError m)) \<longleftrightarrow>
      (\<exists>k s rq data. request_at repr cfg remote k = Some (s, rq) \<and> status_code (remote rq) = 200 \<and>
         body_json (remote rq) = Some data \<and> photos_missing data = Inr True \<and>
         m = ''Unexpected API response format.'')) \<and>
   (\<forall>data. object_body data \<longrightarrow> photos_missing data = Inr (\<not> has_photos_photo data)) \<and>
   (\<forall>k s rq j. request_at repr cfg remote k = Some (s, rq) \<and> status_code (remote rq) \<noteq> 200 \<and> k < j
      \<longrightarrow> request_at repr cfg remote j = None)"
proof (intro conjI allI impI)
  have "paginate repr cfg remote = Some (Inl (RuntimeError m)) \<longleftrightarrow>
      (\<exists>k s rq. request_at repr cfg remote k = Some (s, rq) \<and>
         fetch_photo_list (remote (search_request cfg s)) = Inl (RuntimeError m))"
    by (simp add: paginate_Inl_iff loop_body_Raise_iff)
  also have "\<dots> \<longleftrightarrow> (\<exists>k s rq. request_at repr cfg remote k = Some (s, rq) \<and>
         fetch_photo_list (remote rq) = Inl (RuntimeError m))"
    using request_at_rq by metis
  finally show "paginate repr cfg remote = Some (Inl (RuntimeError m)) \<longleftrightarrow>
      (\<exists>k s rq. request_at repr cfg remote k = Some (s, rq) \<and> status_code (remote rq) \<noteq> 200 \<and>
         m = ''Failed to fetch data from Flickr API: '' @ body_text (remote rq))"
    by (simp add: fetch_RuntimeError_iff)
next
  have "paginate repr cfg remote = Some (Inl (ValueError m)) \<longleftrightarrow>
      (\<exists>k s rq. request_at repr cfg remote k = Some (s, rq) \<and>
         fetch_photo_list (remote (search_request cfg s)) = Inl (ValueError m))"
    by (simp add: paginate_Inl_iff loop_body_Raise_iff)
  also have "\<dots> \<longleftrightarrow> (\<exists>k s rq. request_at repr cfg remote k = Some (s, rq) \<and>
         fetch_photo_list (remote rq) = Inl (ValueError m))"
    using request_at_rq by metis
  finally show "paginate repr cfg remote = Some (Inl (ValueError m)) \<longleftrightarrow>
      (\<exists>k s rq data. request_at repr cfg remote k = Some (s, rq) \<and> status_code (remote rq) = 200 \<and>
         body_json (remote rq) = Some data \<and> photos_missing data = Inr True \<and>
         m = ''Unexpected API response format.'')"
    by (auto simp: fetch_ValueError_iff)
next
  fix data assume "object_body data"
  then show "photos_missing data = Inr (\<not> has_photos_photo data)"
    by (rule photos_missing_object)
next
  fix k s rq j
  assume a: "request_at repr cfg remote k = Some (s, rq) \<and> status_code (remote rq) \<noteq> 200 \<and> k < j"
  then have r: "request_at repr cfg remote k = Some (s, rq)" and j: "k < j" by simp_all
  from request_at_rq[OF r] a have "status_code (remote (search_request cfg s)) \<noteq> 200" by simp
  then have "\<forall>s'. loop_body repr cfg remote s \<noteq> Next s'"
    by (simp add: loop_body_def fetch_photo_list_def)
  from request_is_last_when_not_next[OF r this j]
  show "request_at repr cfg remote j = None" .
qed

section \<open>The claims of the specification\<close>

subsection \<open>Requests\<close>

text \<open>
  C3. Every search request issued by the pagination loop asks for
  \<open>per_page = min (target_count - len(ResultSet), 500)\<close> items, so no request asks for
  more than 500. The request number \<open>k\<close> of a run, issued in the state \<open>s\<close>, carries
  that value (which is also at least 1) and the page number \<open>k + 1\<close>.
\<close>

theorem per_page_of_every_request:
  assumes "request_at repr cfg remote k = Some (s, rq)"
  shows "p_per_page rq = min (num_images cfg - int (length (urls s))) 500 \<and>
         1 \<le> p_per_page rq \<and> p_per_page rq \<le> 500 \<and> p_page rq = 1 + int k"
proof -
  from assms have h: "loop_head repr cfg remote k init_state = Some s"
    and g: "loop_guard cfg s" and rq: "rq = search_request cfg s"
    by (auto simp: request_at_def split: option.splits if_splits)
  from loop_head_page[OF h] have "page s = 1 + int k" by (simp add: init_state_def)
  with g rq show ?thesis
    by (simp add: search_request_def max_per_page_def loop_guard_def Let_def)
qed

theorem per_page_of_every_request_witness:
  "request_at no_repr (example_config 3) scenario_remote 1 =
     Some (\<lparr>urls = [''https://farm1.staticflickr.com/s/A_x.jpg'',
                    ''https://farm1.staticflickr.com/s/C_x.jpg''], page = 2\<rparr>,
           \<lparr>p_method = ''flickr.photos.search'', p_api_key = ''key'', p_text = ''cat'',
            p_per_page = 1, p_page = 2, p_format = ''json'', p_nojsoncallback = 1\<rparr>) \<and>
   (1::int) = min (num_images (example_config 3) - 2) 500"
proof -
  have h: "request_at no_repr (example_config 3) scenario_remote 1 =
     Some (\<lparr>urls = [''https://farm1.staticflickr.com/s/A_x.jpg'',
                    ''https://farm1.staticflickr.com/s/C_x.jpg''], page = 2\<rparr>,
           \<lparr>p_method = ''flickr.photos.search'', p_api_key = ''key'', p_text = ''cat'',
            p_per_page = 1, p_page = 2, p_format = ''json'', p_nojsoncallback = 1\<rparr>)"
    by (simp add: run_defs scenario_remote_def)
  show ?thesis
    using h per_page_of_every_request[OF h] by simp
qed

text \<open>
  C10. A search request is issued only while \<open>len(ResultSet) < target_count\<close>, which is
  tested again before every request: the request of iteration \<open>k\<close> is issued in the
  state at the head of that iteration and only if the list is shorter than the target,
  and once a state at the head of the loop holds \<open>target_count\<close> URLs, no request is
  issued in that iteration or in any later one.
\<close>

theorem no_request_once_target_reached:
  assumes "loop_head repr cfg remote k init_state = Some s"
  shows "(\<forall>s' rq. request_at repr cfg remote k = Some (s', rq) \<longrightarrow>
            s' = s \<and> int (length (urls s)) < num_images cfg) \<and>
         (num_images cfg \<le> int (length (urls s)) \<longrightarrow>
            (\<forall>j\<ge>k. request_at repr cfg remote j = None))"
proof (intro conjI allI impI)
  fix s' rq assume "request_at repr cfg remote k = Some (s', rq)"
  with assms show "s' = s" "int (length (urls s)) < num_images cfg"
    by (auto simp: request_at_def loop_guard_def split: if_splits)
next
  fix j assume full: "num_images cfg \<le> int (length (urls s))" and "k \<le> j"
  then have ng: "\<not> loop_guard cfg s" by (simp add: loop_guard_def)
  show "request_at repr cfg remote j = None"
  proof (cases "j = k")
    case True
    with assms ng show ?thesis by (simp add: request_at_def)
  next
    case False
    with \<open>k \<le> j\<close> have "k < j" by simp
    from loop_head_after_guard_fails[OF assms ng this] show ?thesis
      by (simp add: request_at_def)
  qed
qed

theorem no_request_once_target_reached_witness:
  "loop_head no_repr (example_config 3) scenario_remote 2 init_state =
     Some \<lparr>urls = [''https://farm1.staticflickr.com/s/A_x.jpg'',
                   ''https://farm1.staticflickr.com/s/C_x.jpg'',
                   ''https://farm1.staticflickr.com/s/D_x.jpg''], page = 3\<rparr> \<and>
   request_at no_repr (example_config 3) scenario_remote 2 = None \<and>
   request_at no_repr (example_config 3) scenario_remote 7 = None"
proof -
  have h: "loop_head no_repr (example_config 3) scenario_remote 2 init_state =
     Some \<lparr>urls = [''https://farm1.staticflickr.com/s/A_x.jpg'',
                   ''https://farm1.staticflickr.com/s/C_x.jpg'',
                   ''https://farm1.staticflickr.com/s/D_x.jpg''], page = 3\<rparr>"
    by (simp add: run_defs scenario_remote_def numeral_2_eq_2)
  show ?thesis
    using h no_request_once_target_reached[OF h]
    by (simp add: example_config_def)
qed

subsection \<open>The result list\<close>

text \<open>
  C9. At every point of the pagination loop \<open>len(ResultSet) \<le> target_count\<close>: for a
  target that is not negative, this holds at the head of every iteration, and, when the
  body is entered, after the loop over the records has processed any list of records
  (so after every prefix of a page, that is after every append).
\<close>

theorem result_never_exceeds_target:
  assumes "0 \<le> num_images cfg"
    and "loop_head repr cfg remote k init_state = Some s"
  shows "int (length (urls s)) \<le> num_images cfg \<and>
         (\<forall>ps us'. loop_guard cfg s \<and> photo_loop repr (num_images cfg) ps (urls s) = Inr us'
             \<longrightarrow> int (length us') \<le> num_images cfg)"
  using loop_head_length[OF assms] photo_loop_length
  by (auto simp: loop_guard_def)

theorem result_never_exceeds_target_witness:
  "0 \<le> num_images (example_config 3) \<and>
   loop_head no_repr (example_config 3) scenario_remote 1 init_state =
     Some \<lparr>urls = [''https://farm1.staticflickr.com/s/A_x.jpg'',
                   ''https://farm1.staticflickr.com/s/C_x.jpg''], page = 2\<rparr> \<and>
   loop_guard (example_config 3)
     \<lparr>urls = [''https://farm1.staticflickr.com/s/A_x.jpg'',
              ''https://farm1.staticflickr.com/s/C_x.jpg''], page = 2\<rparr> \<and>
   photo_loop no_repr 3 [photo_record 1 ''s'' ''D'' ''x'', photo_record 1 ''s'' ''E'' ''x'']
     [''https://farm1.staticflickr.com/s/A_x.jpg'', ''https://farm1.staticflickr.com/s/C_x.jpg'']
     = Inr [''https://farm1.staticflickr.com/s/A_x.jpg'', ''https://farm1.staticflickr.com/s/C_x.jpg'',
            ''https://farm1.staticflickr.com/s/D_x.jpg''] \<and>
   int (length (urls \<lparr>urls = [''https://farm1.staticflickr.com/s/A_x.jpg'',
                   ''https://farm1.staticflickr.com/s/C_x.jpg''], page = 2\<rparr>)) \<le> num_images (example_config 3)"
proof -
  have h0: "0 \<le> num_images (example_config 3)"
    by (simp add: example_config_def)
  have h1: "loop_head no_repr (example_config 3) scenario_remote 1 init_state =
     Some \<lparr>urls = [''https://farm1.staticflickr.com/s/A_x.jpg'',
                   ''https://farm1.staticflickr.com/s/C_x.jpg''], page = 2\<rparr>"
    by (simp add: run_defs scenario_remote_def)
  show ?thesis
    using h0 h1 result_never_exceeds_target[OF h0 h1]
    by (simp add: run_defs)
qed

text \<open>
  C5. The ResultSet never holds a URL twice. At the head of every iteration the list is
  duplicate-free, and it is still so after the loop over the records has processed any
  list of records from there; the list only grows at its end, so a URL stays where it
  was first discovered; the URL of every valid record that was processed occurs exactly
  once (unless the target was reached before the record's turn); two records with the
  same farm, server, id and secret have the same URL; and the list that the pagination
  returns is duplicate-free.
\<close>

theorem result_has_no_duplicates:
  assumes "loop_head repr cfg remote k init_state = Some s"
    and "photo_loop repr (num_images cfg) ps (urls s) = Inr us'"
  shows "distinct (urls s) \<and> distinct us' \<and> prefix (urls s) us' \<and>
         (\<forall>p \<in> set ps. \<forall>u. photo_invalid p = Inr False \<and> photo_url repr p = Inr u \<longrightarrow>
              count_list us' u = 1 \<or> num_images cfg \<le> int (length us')) \<and>
         (\<forall>p q. valid_record p \<and> field q ''farm'' = field p ''farm'' \<and>
              field q ''server'' = field p ''server'' \<and> field q ''id'' = field p ''id'' \<and>
              field q ''secret'' = field p ''secret'' \<longrightarrow> photo_url repr q = photo_url repr p) \<and>
         (\<forall>us. paginate repr cfg remote = Some (Inr us) \<longrightarrow> distinct us)"
proof (intro conjI ballI allI impI)
  show d: "distinct (urls s)" using assms(1) by (rule loop_head_distinct)
  show d': "distinct us'" using d assms(2) by (rule photo_loop_distinct)
  show "prefix (urls s) us'" using assms(2) by (rule photo_loop_prefix)
  show "count_list us' u = 1 \<or> num_images cfg \<le> int (length us')"
    if p: "p \<in> set ps" and v: "photo_invalid p = Inr False \<and> photo_url repr p = Inr u" for p u
  proof -
    from v have v1: "photo_invalid p = Inr False" and v2: "photo_url repr p = Inr u" by simp_all
    from photo_loop_member[OF assms(2) p v1 v2]
    have "u \<in> set us' \<or> num_images cfg \<le> int (length us')" .
    then show ?thesis
    proof
      assume "u \<in> set us'"
      with d' have "count_list us' u = 1" by (rule distinct_count_list)
      then show ?thesis by simp
    next
      assume "num_images cfg \<le> int (length us')"
      then show ?thesis by simp
    qed
  qed
  show "photo_url repr q = photo_url repr p"
    if h: "valid_record p \<and> field q ''farm'' = field p ''farm'' \<and>
        field q ''server'' = field p ''server'' \<and> field q ''id'' = field p ''id'' \<and>
        field q ''secret'' = field p ''secret''" for p q
  proof (rule same_fields_same_url)
    show "valid_record p" using h by simp
    show "field q ''farm'' = field p ''farm''" using h by simp
    show "field q ''server'' = field p ''server''" using h by simp
    show "field q ''id'' = field p ''id''" using h by simp
    show "field q ''secret'' = field p ''secret''" using h by simp
  qed
  show "distinct us" if "paginate repr cfg remote = Some (Inr us)" for us
    using that by (rule paginate_distinct)
qed

theorem result_has_no_duplicates_witness:
  "loop_head no_repr (example_config 3) scenario_remote 0 init_state = Some init_state \<and>
   photo_loop no_repr (num_images (example_config 3))
     [photo_record 1 ''s'' ''A'' ''x'', photo_record 1 ''s'' ''A'' ''x'',
      JObj [(''farm'', JInt 1), (''id'', JStr ''B''), (''secret'', JStr ''x'')],
      photo_record 1 ''s'' ''C'' ''x''] (urls init_state)
     = Inr [''https://farm1.staticflickr.com/s/A_x.jpg'', ''https://farm1.staticflickr.com/s/C_x.jpg''] \<and>
   distinct [''https://farm1.staticflickr.com/s/A_x.jpg'', ''https://farm1.staticflickr.com/s/C_x.jpg''] \<and>
   photo_url no_repr (photo_record 1 ''s'' ''A'' ''x'') = Inr ''https://farm1.staticflickr.com/s/A_x.jpg'' \<and>
   count_list [''https://farm1.staticflickr.com/s/A_x.jpg'', ''https://farm1.staticflickr.com/s/C_x.jpg'']
     ''https://farm1.staticflickr.com/s/A_x.jpg'' = 1"
proof -
  have h: "loop_head no_repr (example_config 3) scenario_remote 0 init_state = Some init_state"
    by simp
  have r: "photo_loop no_repr (num_images (example_config 3))
     [photo_record 1 ''s'' ''A'' ''x'', photo_record 1 ''s'' ''A'' ''x'',
      JObj [(''farm'', JInt 1), (''id'', JStr ''B''), (''secret'', JStr ''x'')],
      photo_record 1 ''s'' ''C'' ''x''] (urls init_state)
     = Inr [''https://farm1.staticflickr.com/s/A_x.jpg'', ''https://farm1.staticflickr.com/s/C_x.jpg'']"
    by (simp add: run_defs)
  show ?thesis
    using h r result_has_no_duplicates[OF h r]
    by (simp add: run_defs)
qed

text \<open>
  C6. When a search response is a success whose photo list is empty (more generally: is
  false in Python's sense) before \<open>target_count\<close> URLs are collected, the loop ends
  there and the pagination returns the list collected so far, shorter than
  \<open>target_count\<close>, and no error.
\<close>

theorem empty_page_ends_the_run:
  assumes "loop_head repr cfg remote k init_state = Some s"
    and "loop_guard cfg s"
    and "fetch_photo_list (remote (search_request cfg s)) = Inr photo_list"
    and "\<not> py_truthy photo_list"
  shows "paginate repr cfg remote = Some (Inr (urls s)) \<and>
         int (length (urls s)) < num_images cfg"
proof -
  from assms(2-4) have "loop_exit repr cfg remote s = Some (Inr s)"
    by (simp add: loop_exit_def loop_body_def)
  then have "while_loop repr cfg remote s = Some (Inr s)" by (rule while_loop_exit)
  with while_loop_head[OF assms(1)] have "while_loop repr cfg remote init_state = Some (Inr s)"
    by simp
  with assms(2) show ?thesis by (simp add: paginate_def loop_guard_def)
qed

theorem empty_page_ends_the_run_witness:
  "loop_head no_repr (example_config 5) scenario_remote 2 init_state =
     Some \<lparr>urls = [''https://farm1.staticflickr.com/s/A_x.jpg'',
                   ''https://farm1.staticflickr.com/s/C_x.jpg'',
                   ''https://farm1.staticflickr.com/s/D_x.jpg''], page = 3\<rparr> \<and>
   fetch_photo_list (scenario_remote (search_request (example_config 5)
     \<lparr>urls = [''https://farm1.staticflickr.com/s/A_x.jpg'',
              ''https://farm1.staticflickr.com/s/C_x.jpg'',
              ''https://farm1.staticflickr.com/s/D_x.jpg''], page = 3\<rparr>)) = Inr (JArr []) \<and>
   paginate no_repr (example_config 5) scenario_remote =
     Some (Inr [''https://farm1.staticflickr.com/s/A_x.jpg'',
                ''https://farm1.staticflickr.com/s/C_x.jpg'',
                ''https://farm1.staticflickr.com/s/D_x.jpg''])"
proof -
  let ?s = "\<lparr>urls = [''https://farm1.staticflickr.com/s/A_x.jpg'',
                   ''https://farm1.staticflickr.com/s/C_x.jpg'',
                   ''https://farm1.staticflickr.com/s/D_x.jpg''], page = 3\<rparr>"
  have h: "loop_head no_repr (example_config 5) scenario_remote 2 init_state = Some ?s"
    by (simp add: run_defs scenario_remote_def numeral_2_eq_2)
  have g: "loop_guard (example_config 5) ?s"
    by (simp add: run_defs)
  have f: "fetch_photo_list (scenario_remote (search_request (example_config 5) ?s)) = Inr (JArr [])"
    by (simp add: run_defs scenario_remote_def)
  have t: "\<not> py_truthy (JArr [])" by simp
  show ?thesis
    using h f empty_page_ends_the_run[OF h g f t] by simp
qed

subsection \<open>Validation of a record\<close>

text \<open>
  C4 says that a record contributes a URL iff all four fields are present and non-empty
  or non-zero, and that every invalid record is skipped without an error. The source
  compares \<^verbatim>\<open>farm\<close> with 0 and does nothing else with it: a record whose \<^verbatim>\<open>farm\<close> is
  the empty string is not valid in the sense of the claim, yet it passes the test of
  lines 116 to 125 and its URL is appended. And an item of the photo list that is not a
  JSON object is not skipped: on \<^verbatim>\<open>null\<close> the membership test of line 117 raises a
  \<^verbatim>\<open>TypeError\<close>, which ends the run.
\<close>

theorem empty_farm_gets_a_url:
  "\<not> spec_valid_record empty_farm_record \<and>
   photo_loop no_repr 3 [empty_farm_record] [] = Inr [''https://farm.staticflickr.com/s/A_x.jpg''] \<and>
   photo_loop no_repr 3 [JNull, photo_record 1 ''s'' ''C'' ''x''] [] = Inl TypeError"
  by (simp add: spec_valid_record_def field_def empty_farm_record_def run_defs)

text \<open>
  C4, amended. A record that is a JSON object contributes a URL iff \<^verbatim>\<open>farm\<close>,
  \<^verbatim>\<open>server\<close>, \<^verbatim>\<open>id\<close> and \<^verbatim>\<open>secret\<close> are present, \<^verbatim>\<open>farm\<close> is not equal to 0, and
  \<^verbatim>\<open>server\<close>, \<^verbatim>\<open>id\<close> and \<^verbatim>\<open>secret\<close> are neither empty nor zero. The test of the
  source is the negation of this validity; the loop over the records treats an invalid
  JSON object as if it were absent (no URL, no error), so a record without \<^verbatim>\<open>secret\<close> or
  with \<^verbatim>\<open>farm == 0\<close> yields no URL and does not fail the run; for a valid one the loop
  builds the URL, which is in the list afterwards, and goes on. This validity is the one
  of the claim except that \<^verbatim>\<open>farm\<close> may be empty: the records that are valid in the sense
  of the claim are the valid ones whose \<^verbatim>\<open>farm\<close> is neither empty nor zero.
\<close>

theorem record_contributes_iff_valid:
  "photo_invalid (JObj kvs) = Inr (\<not> valid_record (JObj kvs)) \<and>
   (\<not> valid_record (JObj kvs) \<longrightarrow>
      photo_loop repr n (JObj kvs # rest) us = photo_loop repr n rest us) \<and>
   (valid_record (JObj kvs) \<longrightarrow>
      (\<exists>u. photo_url repr (JObj kvs) = Inr u \<and> u \<in> set (append_new u us) \<and>
           photo_loop repr n (JObj kvs # rest) us =
             (if n \<le> int (length (append_new u us)) then Inr (append_new u us)
              else photo_loop repr n rest (append_new u us)))) \<and>
   (spec_valid_record (JObj kvs) \<longleftrightarrow>
      valid_record (JObj kvs) \<and> (\<exists>v. field (JObj kvs) ''farm'' = Some v \<and> py_truthy v))"
proof (intro conjI impI)
  show "photo_invalid (JObj kvs) = Inr (\<not> valid_record (JObj kvs))"
    by (rule photo_invalid_obj)
next
  assume "\<not> valid_record (JObj kvs)"
  then show "photo_loop repr n (JObj kvs # rest) us = photo_loop repr n rest us"
    by (simp add: photo_invalid_obj)
next
  assume v: "valid_record (JObj kvs)"
  then obtain u where u: "photo_url repr (JObj kvs) = Inr u"
    using photo_url_valid by blast
  with v have "photo_loop repr n (JObj kvs # rest) us =
             (if n \<le> int (length (append_new u us)) then Inr (append_new u us)
              else photo_loop repr n rest (append_new u us))"
    by (simp add: photo_invalid_obj Let_def)
  with u show "\<exists>u. photo_url repr (JObj kvs) = Inr u \<and> u \<in> set (append_new u us) \<and>
           photo_loop repr n (JObj kvs # rest) us =
             (if n \<le> int (length (append_new u us)) then Inr (append_new u us)
              else photo_loop repr n rest (append_new u us))"
    by (simp add: set_append_new)
next
  show "spec_valid_record (JObj kvs) \<longleftrightarrow>
      valid_record (JObj kvs) \<and> (\<exists>v. field (JObj kvs) ''farm'' = Some v \<and> py_truthy v)"
    by (rule spec_valid_iff)
qed

theorem record_contributes_iff_valid_witness:
  "\<not> valid_record (JObj [(''farm'', JInt 1), (''server'', JStr ''s''), (''id'', JStr ''B'')]) \<and>
   \<not> valid_record (photo_record 0 ''s'' ''B'' ''x'') \<and>
   valid_record (photo_record 1 ''s'' ''C'' ''x'') \<and>
   photo_loop no_repr 3
     [JObj [(''farm'', JInt 1), (''server'', JStr ''s''), (''id'', JStr ''B'')],
      photo_record 0 ''s'' ''B'' ''x'', photo_record 1 ''s'' ''C'' ''x'']
     [''https://farm1.staticflickr.com/s/A_x.jpg'']
   = Inr [''https://farm1.staticflickr.com/s/A_x.jpg'', ''https://farm1.staticflickr.com/s/C_x.jpg'']"
proof -
  have a: "\<not> valid_record (JObj [(''farm'', JInt 1), (''server'', JStr ''s''), (''id'', JStr ''B'')])"
    by (simp add: valid_record_def field_def)
  have b: "\<not> valid_record (JObj [(''farm'', JInt 0), (''server'', JStr ''s''), (''id'', JStr ''B''), (''secret'', JStr ''x'')])"
    by (simp add: valid_record_def field_def)
  have c: "valid_record (JObj [(''farm'', JInt 1), (''server'', JStr ''s''), (''id'', JStr ''C''), (''secret'', JStr ''x'')])"
    by (simp add: valid_record_def field_def)
  show ?thesis
    using a b c
      record_contributes_iff_valid[of "[(''farm'', JInt 1), (''server'', JStr ''s''), (''id'', JStr ''B'')]"
        no_repr 3
        "[photo_record 0 ''s'' ''B'' ''x'', photo_record 1 ''s'' ''C'' ''x'']"
        "[''https://farm1.staticflickr.com/s/A_x.jpg'']"]
      record_contributes_iff_valid[of "[(''farm'', JInt 0), (''server'', JStr ''s''), (''id'', JStr ''B''), (''secret'', JStr ''x'')]"
        no_repr 3
        "[photo_record 1 ''s'' ''C'' ''x'']"
        "[''https://farm1.staticflickr.com/s/A_x.jpg'']"]
      record_contributes_iff_valid[of "[(''farm'', JInt 1), (''server'', JStr ''s''), (''id'', JStr ''C''), (''secret'', JStr ''x'')]"
        no_repr 3 "[]"
        "[''https://farm1.staticflickr.com/s/A_x.jpg'']"]
    by (simp add: photo_record_def photo_url_def append_new_def str_int_def str_nat.simps)
qed

subsection \<open>Termination\<close>

text \<open>
  C2 says that the pagination loop terminates for every sequence of responses. The loop
  has no bound on the number of pages: when every page is a success that holds one
  record without fields, the record is skipped, the list stays empty, the page counter
  advances, and the run with target 1 never returns.
\<close>

theorem stuck_run_never_returns:
  "valid_config (example_config 1) \<and>
   paginate no_repr (example_config 1) stuck_remote = None"
proof -
  have "while_loop no_repr (example_config 1) stuck_remote init_state = None"
  proof (rule ccontr)
    assume "while_loop no_repr (example_config 1) stuck_remote init_state \<noteq> None"
    then obtain r where "while_loop no_repr (example_config 1) stuck_remote init_state = Some r" by blast
    from while_loop_Some[OF this] obtain k s where
      h: "loop_head no_repr (example_config 1) stuck_remote k init_state = Some s"
      and e: "loop_exit no_repr (example_config 1) stuck_remote s = Some r" by blast
    from stuck_heads[OF h] have u: "urls s = []" .
    from u have "loop_guard (example_config 1) s" by (simp add: loop_guard_def example_config_def)
    with stuck_step[OF u] have "loop_exit no_repr (example_config 1) stuck_remote s = None"
      by (simp add: loop_exit_def)
    with e show False by simp
  qed
  then show ?thesis by (simp add: paginate_def valid_config_def example_config_def)
qed

text \<open>
  C2, amended. The pagination loop terminates if and only if, after finitely many
  iterations, the ResultSet reaches \<open>target_count\<close>, or a page with an empty photo list
  is encountered, or a fatal error is raised, and it then ends in that way: with the
  list collected so far in the first two cases, with the error in the third. In
  particular it terminates, after at most \<open>P\<close> requests, whenever some page \<open>P \<ge> 1\<close> is
  answered, whatever the number of items requested, by an error status, a body that is
  not JSON or not of the expected shape, or an empty photo list. It runs forever
  when every page from 1 on is a success whose photo list is not empty and holds records
  only, and all the pages together hold fewer than \<open>target_count\<close> different URLs of
  valid records.
\<close>

theorem termination_of_pagination:
  "(paginate repr cfg remote = Some r \<longleftrightarrow>
      (\<exists>k s. loop_head repr cfg remote k init_state = Some s \<and>
         (num_images cfg \<le> int (length (urls s)) \<and> r = Inr (urls s) \<or>
          loop_guard cfg s \<and>
            (\<exists>photo_list. fetch_photo_list (remote (search_request cfg s)) = Inr photo_list \<and>
               \<not> py_truthy photo_list) \<and> r = Inr (urls s) \<or>
          loop_guard cfg s \<and> (\<exists>e. loop_body repr cfg remote s = Raise e \<and> r = Inl e)))) \<and>
   (1 \<le> P \<and> (\<forall>rq. p_page rq = P \<longrightarrow> page_stops (remote rq)) \<longrightarrow>
      (\<exists>r. paginate repr cfg remote = Some r) \<and>
      (\<forall>j \<ge> nat P. request_at repr cfg remote j = None)) \<and>
   (starves repr (num_images cfg) remote \<longrightarrow> paginate repr cfg remote = None)"
proof (intro conjI impI)
  show "paginate repr cfg remote = Some r \<longleftrightarrow>
      (\<exists>k s. loop_head repr cfg remote k init_state = Some s \<and>
         (num_images cfg \<le> int (length (urls s)) \<and> r = Inr (urls s) \<or>
          loop_guard cfg s \<and>
            (\<exists>photo_list. fetch_photo_list (remote (search_request cfg s)) = Inr photo_list \<and>
               \<not> py_truthy photo_list) \<and> r = Inr (urls s) \<or>
          loop_guard cfg s \<and> (\<exists>e. loop_body repr cfg remote s = Raise e \<and> r = Inl e)))"
    by (rule paginate_Some_iff)
next
  assume a: "1 \<le> P \<and> (\<forall>rq. p_page rq = P \<longrightarrow> page_stops (remote rq))"
  then have p1: "1 \<le> P" and p2: "\<forall>rq. p_page rq = P \<longrightarrow> page_stops (remote rq)" by simp_all
  from stopping_page_ends[OF p1 p2] have n: "loop_head repr cfg remote (nat P) init_state = None" .
  from while_loop_terminates[OF n] obtain r' where "while_loop repr cfg remote init_state = Some r'" ..
  then have "paginate repr cfg remote = Some (map_sum id urls r')" by (simp add: paginate_def)
  then show "\<exists>r. paginate repr cfg remote = Some r" ..
  show "\<forall>j \<ge> nat P. request_at repr cfg remote j = None"
  proof (intro allI impI)
    fix j assume "nat P \<le> j"
    from loop_head_None_mono[OF n this] show "request_at repr cfg remote j = None"
      by (simp add: request_at_def)
  qed
next
  assume "starves repr (num_images cfg) remote"
  then show "paginate repr cfg remote = None" by (rule starved_run_diverges)
qed

theorem termination_of_pagination_witness:
  "loop_head no_repr (example_config 5) scenario_remote 2 init_state =
     Some \<lparr>urls = [''https://farm1.staticflickr.com/s/A_x.jpg'',
                   ''https://farm1.staticflickr.com/s/C_x.jpg'',
                   ''https://farm1.staticflickr.com/s/D_x.jpg''], page = 3\<rparr> \<and>
   page_stops (scenario_remote \<lparr>p_method = ''flickr.photos.search'', p_api_key = ''key'',
      p_text = ''cat'', p_per_page = 2, p_page = 3, p_format = ''json'', p_nojsoncallback = 1\<rparr>) \<and>
   paginate no_repr (example_config 5) scenario_remote =
     Some (Inr [''https://farm1.staticflickr.com/s/A_x.jpg'',
                ''https://farm1.staticflickr.com/s/C_x.jpg'',
                ''https://farm1.staticflickr.com/s/D_x.jpg'']) \<and>
   request_at no_repr (example_config 5) scenario_remote 3 = None \<and>
   starves no_repr (num_images (example_config 2)) repeating_remote \<and>
   paginate no_repr (example_config 2) repeating_remote = None"
proof -
  have h1: "(1::int) \<le> 3" by simp
  have h2: "\<forall>rq. p_page rq = 3 \<longrightarrow> page_stops (scenario_remote rq)"
    by (simp add: page_stops_def scenario_remote_def fetch_photo_list_def search_page_def
        photos_missing_def or_else_def)
  have st: "starves no_repr (num_images (example_config 2)) repeating_remote"
    using repeating_starves by (simp add: example_config_def)
  have lh: "loop_head no_repr (example_config 5) scenario_remote 2 init_state =
     Some \<lparr>urls = [''https://farm1.staticflickr.com/s/A_x.jpg'',
                   ''https://farm1.staticflickr.com/s/C_x.jpg'',
                   ''https://farm1.staticflickr.com/s/D_x.jpg''], page = 3\<rparr>"
    by (simp add: run_defs scenario_remote_def numeral_2_eq_2)
  have pg: "paginate no_repr (example_config 5) scenario_remote =
     Some (Inr [''https://farm1.staticflickr.com/s/A_x.jpg'',
                ''https://farm1.staticflickr.com/s/C_x.jpg'',
                ''https://farm1.staticflickr.com/s/D_x.jpg''])"
    by (simp add: run_defs scenario_remote_def)
  note t = termination_of_pagination[of no_repr "example_config 5" scenario_remote _ 3]
  note t' = termination_of_pagination[of no_repr "example_config 2" repeating_remote]
  from conjunct1[OF conjunct2[OF t]] h1 h2
  have rq: "request_at no_repr (example_config 5) scenario_remote 3 = None" by simp
  from conjunct2[OF conjunct2[OF t']] st
  have dv: "paginate no_repr (example_config 2) repeating_remote = None" by simp
  from lh h2 pg rq st dv show ?thesis by simp
qed

subsection \<open>The number of results\<close>



subsection \<open>Errors\<close>

text \<open>
  C8. \<^verbatim>\<open>__open_image_from_url\<close> fails with the download error (the \<^verbatim>\<open>ValueError\<close>
  of line 158) exactly when the status of the image response is not 200, and such a
  failure aborts the run: when the pagination has returned a list in which every URL
  before \<open>u\<close> was downloaded and the download of \<open>u\<close> has a status other than 200,
  \<^verbatim>\<open>execute\<close> ends with the download error of \<open>u\<close> and returns no table; and whenever
  some URL of the list has a status other than 200, \<^verbatim>\<open>execute\<close> ends with an error.
\<close>

theorem download_failure_aborts_run:
  "((\<exists>m. open_image_from_url http_get image_open image_save_png url = Inl (ValueError m))
      \<longleftrightarrow> status_code (http_get url) \<noteq> 200) \<and>
   (status_code (http_get url) \<noteq> 200 \<longrightarrow>
      open_image_from_url http_get image_open image_save_png url =
        Inl (ValueError (''Failed to fetch image from URL: '' @ url))) \<and>
   (paginate repr cfg remote = Some (Inr (pre @ u # post)) \<and>
    (\<forall>v \<in> set pre. \<exists>img. open_image_from_url http_get image_open image_save_png v = Inr img) \<and>
    status_code (http_get u) \<noteq> 200 \<longrightarrow>
      execute repr cfg remote http_get image_open image_save_png =
        Some (Inl (ValueError (''Failed to fetch image from URL: '' @ u)))) \<and>
   (paginate repr cfg remote = Some (Inr us) \<and> u \<in> set us \<and> status_code (http_get u) \<noteq> 200 \<longrightarrow>
      (\<exists>e. execute repr cfg remote http_get image_open image_save_png = Some (Inl e)))"
proof (intro conjI impI)
  show "(\<exists>m. open_image_from_url http_get image_open image_save_png url = Inl (ValueError m))
      \<longleftrightarrow> status_code (http_get url) \<noteq> 200"
    by (rule open_image_failed_iff)
next
  assume "status_code (http_get url) \<noteq> 200"
  then show "open_image_from_url http_get image_open image_save_png url =
        Inl (ValueError (''Failed to fetch image from URL: '' @ url))"
    by (rule open_image_not_200)
next
  assume a: "paginate repr cfg remote = Some (Inr (pre @ u # post)) \<and>
    (\<forall>v \<in> set pre. \<exists>img. open_image_from_url http_get image_open image_save_png v = Inr img) \<and>
    status_code (http_get u) \<noteq> 200"
  then have f: "open_image_from_url http_get image_open image_save_png u =
        Inl (ValueError (''Failed to fetch image from URL: '' @ u))"
    by (simp add: open_image_not_200)
  from a have ok: "\<forall>v \<in> set pre. \<exists>img. open_image_from_url http_get image_open image_save_png v = Inr img"
    by simp
  from open_all_first_failure[of pre "open_image_from_url http_get image_open image_save_png", OF ok f] a
  show "execute repr cfg remote http_get image_open image_save_png =
        Some (Inl (ValueError (''Failed to fetch image from URL: '' @ u)))"
    by (simp add: execute_def)
next
  assume a: "paginate repr cfg remote = Some (Inr us) \<and> u \<in> set us \<and> status_code (http_get u) \<noteq> 200"
  then have f: "open_image_from_url http_get image_open image_save_png u =
        Inl (ValueError (''Failed to fetch image from URL: '' @ u))"
    by (simp add: open_image_not_200)
  from a have "u \<in> set us" by simp
  from open_all_some_failure[of u us "open_image_from_url http_get image_open image_save_png", OF this f]
  obtain e' where
    "open_all (open_image_from_url http_get image_open image_save_png) us = Inl e'" ..
  with a have "execute repr cfg remote http_get image_open image_save_png = Some (Inl e')"
    by (simp add: execute_def)
  then show "\<exists>e. execute repr cfg remote http_get image_open image_save_png = Some (Inl e)" ..
qed

theorem download_failure_aborts_run_witness:
  "paginate no_repr (example_config 3) scenario_remote =
     Some (Inr ([''https://farm1.staticflickr.com/s/A_x.jpg''] @
                ''https://farm1.staticflickr.com/s/C_x.jpg'' #
                [''https://farm1.staticflickr.com/s/D_x.jpg''])) \<and>
   open_image_from_url example_host example_open example_save_png
     ''https://farm1.staticflickr.com/s/A_x.jpg'' = Inr [255, 216, 255] \<and>
   status_code (example_host ''https://farm1.staticflickr.com/s/C_x.jpg'') = 404 \<and>
   execute no_repr (example_config 3) scenario_remote example_host example_open example_save_png =
     Some (Inl (ValueError ''Failed to fetch image from URL: https://farm1.staticflickr.com/s/C_x.jpg''))"
proof -
  have p: "paginate no_repr (example_config 3) scenario_remote =
     Some (Inr ([''https://farm1.staticflickr.com/s/A_x.jpg''] @
                ''https://farm1.staticflickr.com/s/C_x.jpg'' #
                [''https://farm1.staticflickr.com/s/D_x.jpg'']))"
    by (simp add: run_defs scenario_remote_def)
  have a: "open_image_from_url example_host example_open example_save_png
     ''https://farm1.staticflickr.com/s/A_x.jpg'' = Inr [255, 216, 255]"
    by (simp add: open_image_from_url_def example_host_def example_open_def example_save_png_def)
  have c: "status_code (example_host ''https://farm1.staticflickr.com/s/C_x.jpg'') = 404"
    by (simp add: example_host_def)
  show ?thesis
    using p a c
      download_failure_aborts_run[of example_host example_open example_save_png
        "''https://farm1.staticflickr.com/s/C_x.jpg''" no_repr "example_config 3" scenario_remote
        "[''https://farm1.staticflickr.com/s/A_x.jpg'']" "''https://farm1.staticflickr.com/s/C_x.jpg''"
        "[''https://farm1.staticflickr.com/s/D_x.jpg'']"]
    by simp
qed

text \<open>
  C7. The pagination fails with the API error exactly when a search request is answered
  with a status that is not success, and with the malformed-response error exactly when
  a success response lacks the nested \<^verbatim>\<open>photos.photo\<close>. The check of line 105 is
  written for the second half and raises the error of line 106 for the body
  \<^verbatim>\<open>{"photos": {}}\<close>. For the body \<^verbatim>\<open>{"photos": null}\<close>, which lacks \<^verbatim>\<open>photos.photo\<close>
  as well, its second membership test \<^verbatim>\<open>"photo" not in data["photos"]\<close> raises a
  \<^verbatim>\<open>TypeError\<close> instead, and the run ends with that exception: there the source does not
  do what the claim says and what its own check is written to do. (The first half holds:
  a response with status 500 ends the run with the API error.)
\<close>

theorem null_photos_raises_type_error:
  "status_code (null_photos_remote (search_request (example_config 1) init_state)) = 200 \<and>
   body_json (null_photos_remote (search_request (example_config 1) init_state)) =
     Some (JObj [(''photos'', JNull)]) \<and>
   \<not> has_photos_photo (JObj [(''photos'', JNull)]) \<and>
   paginate no_repr (example_config 1) null_photos_remote = Some (Inl TypeError) \<and>
   \<not> has_photos_photo (JObj [(''photos'', JObj [])]) \<and>
   paginate no_repr (example_config 1) empty_photos_remote =
     Some (Inl (ValueError ''Unexpected API response format.'')) \<and>
   paginate no_repr (example_config 1) failing_remote =
     Some (Inl (RuntimeError ''Failed to fetch data from Flickr API: Internal Server Error''))"
  by (simp add: run_defs null_photos_remote_def empty_photos_remote_def failing_remote_def
      has_photos_photo_def)

end
